theory Spec2Isabelle
  imports Complex_Main
begin

section \<open>The calendar of Python's datetime module\<close>

text \<open>
  The recogniser builds its dates with \<^verbatim>\<open>datetime(year, month, day)\<close>, shifts them with
  \<^verbatim>\<open>timedelta(days=...)\<close> and subtracts them. Those operations go through the proleptic
  Gregorian ordinal of a date (day 1 is 0001-01-01), computed as the datetime module does.
\<close>

record date =
  year :: int
  month :: int
  day :: int

definition MINYEAR :: int where "MINYEAR = 1"
definition MAXYEAR :: int where "MAXYEAR = 9999"
definition MAXORDINAL :: int where "MAXORDINAL = 3652059"

definition DAYS_IN_MONTH :: "int list" where
  "DAYS_IN_MONTH = [-1, 31, 28, 31, 30, 31, 30, 31, 31, 30, 31, 30, 31]"

definition DAYS_BEFORE_MONTH :: "int list" where
  "DAYS_BEFORE_MONTH = [-1, 0, 31, 59, 90, 120, 151, 181, 212, 243, 273, 304, 334]"

definition is_leap :: "int \<Rightarrow> bool" where
  "is_leap y = (y mod 4 = 0 \<and> (y mod 100 \<noteq> 0 \<or> y mod 400 = 0))"

definition days_before_year :: "int \<Rightarrow> int" where
  "days_before_year y = (let p = y - 1 in p * 365 + p div 4 - p div 100 + p div 400)"

definition days_in_month :: "int \<Rightarrow> int \<Rightarrow> int" where
  "days_in_month y m = (if m = 2 \<and> is_leap y then 29 else DAYS_IN_MONTH ! nat m)"

definition days_before_month :: "int \<Rightarrow> int \<Rightarrow> int" where
  "days_before_month y m = DAYS_BEFORE_MONTH ! nat m + (if m > 2 \<and> is_leap y then 1 else 0)"

definition ymd2ord :: "date \<Rightarrow> int" where
  "ymd2ord d = days_before_year (year d) + days_before_month (year d) (month d) + day d"

definition ord2ymd :: "int \<Rightarrow> date" where
  "ord2ymd ordinal =
     (let n = ordinal - 1;
          n400 = n div 146097; n = n mod 146097;
          y = n400 * 400 + 1;
          n100 = n div 36524; n = n mod 36524;
          n4 = n div 1461; n = n mod 1461;
          n1 = n div 365; n = n mod 365;
          y = y + n100 * 100 + n4 * 4 + n1
      in if n1 = 4 \<or> n100 = 4 then \<lparr>year = y - 1, month = 12, day = 31\<rparr>
         else
           let leapyear = (n1 = 3 \<and> (n4 \<noteq> 24 \<or> n100 = 3));
               m = (n + 50) div 32;
               preceding = DAYS_BEFORE_MONTH ! nat m + (if m > 2 \<and> leapyear then 1 else 0)
           in if preceding > n
              then (let m = m - 1;
                        preceding = preceding
                          - (DAYS_IN_MONTH ! nat m + (if m = 2 \<and> leapyear then 1 else 0))
                    in \<lparr>year = y, month = m, day = n - preceding + 1\<rparr>)
              else \<lparr>year = y, month = m, day = n - preceding + 1\<rparr>)"

text \<open>The field check of the date constructor: what makes three integers a calendar date.\<close>

definition valid_date :: "date \<Rightarrow> bool" where
  "valid_date d = (MINYEAR \<le> year d \<and> year d \<le> MAXYEAR \<and> 1 \<le> month d \<and> month d \<le> 12
     \<and> 1 \<le> day d \<and> day d \<le> days_in_month (year d) (month d))"

text \<open>
  Dates compare as their (year, month, day) triples. \<open>valid_md\<close> is the month and day part
  of the field check alone.
\<close>

definition date_less :: "date \<Rightarrow> date \<Rightarrow> bool" where
  "date_less d1 d2 = (year d1 < year d2 \<or> (year d1 = year d2 \<and>
     (month d1 < month d2 \<or> (month d1 = month d2 \<and> day d1 < day d2))))"

definition valid_md :: "date \<Rightarrow> bool" where
  "valid_md d = (1 \<le> month d \<and> month d \<le> 12 \<and> 1 \<le> day d
     \<and> day d \<le> days_in_month (year d) (month d))"

section \<open>Python values and exceptions\<close>

text \<open>
  The values the two calculator methods can be handed or can produce. A text is the list of
  its code points. A datetime is a date with the microsecond of the day; a timedelta is a
  number of days with the microsecond of the day (always in \<open>0 ..< 86400000000\<close>).
\<close>

type_synonym pystr = "nat list"

datatype exn = ValueError | TypeError | AttributeError | OverflowError

datatype pyval =
    PyNone
  | PyInt int
  | PyStr pystr
  | PyDate date
  | PyDateTime date int
  | PyTimedelta int int

definition DAY_US :: int where "DAY_US = 86400000000"

text \<open>\<^verbatim>\<open>timedelta(days=n)\<close> and the normalising constructor behind timedelta arithmetic:
  both refuse more than 999999999 days in either direction.\<close>

definition timedelta_norm :: "int \<Rightarrow> int \<Rightarrow> exn + pyval" where
  "timedelta_norm days us =
     (let d = days + us div DAY_US; u = us mod DAY_US
      in if - 999999999 \<le> d \<and> d \<le> 999999999 then Inr (PyTimedelta d u) else Inl OverflowError)"

definition timedelta :: "int \<Rightarrow> exn + pyval" where
  "timedelta days = timedelta_norm days 0"

text \<open>\<^verbatim>\<open>date + timedelta\<close> looks at the days of the timedelta only; the result must have an
  ordinal in \<open>1 .. MAXORDINAL\<close>.\<close>

definition date_add :: "date \<Rightarrow> int \<Rightarrow> exn + date" where
  "date_add d k =
     (let ordinal = ymd2ord d + k
      in if 0 < ordinal \<and> ordinal \<le> MAXORDINAL then Inr (ord2ymd ordinal)
         else Inl OverflowError)"

definition datetime_add :: "date \<Rightarrow> int \<Rightarrow> int \<Rightarrow> int \<Rightarrow> exn + pyval" where
  "datetime_add d t k u =
     (let total = t + u; ordinal = ymd2ord d + k + total div DAY_US
      in if 0 < ordinal \<and> ordinal \<le> MAXORDINAL
         then Inr (PyDateTime (ord2ymd ordinal) (total mod DAY_US))
         else Inl OverflowError)"

fun py_add :: "pyval \<Rightarrow> pyval \<Rightarrow> exn + pyval" where
  "py_add (PyDate d) (PyTimedelta k u) =
     (case date_add d k of Inl e \<Rightarrow> Inl e | Inr d' \<Rightarrow> Inr (PyDate d'))"
| "py_add (PyTimedelta k u) (PyDate d) =
     (case date_add d k of Inl e \<Rightarrow> Inl e | Inr d' \<Rightarrow> Inr (PyDate d'))"
| "py_add (PyDateTime d t) (PyTimedelta k u) = datetime_add d t k u"
| "py_add (PyTimedelta k u) (PyDateTime d t) = datetime_add d t k u"
| "py_add (PyTimedelta k u) (PyTimedelta k' u') = timedelta_norm (k + k') (u + u')"
| "py_add (PyInt a) (PyInt b) = Inr (PyInt (a + b))"
| "py_add (PyStr a) (PyStr b) = Inr (PyStr (a @ b))"
| "py_add _ _ = Inl TypeError"

fun py_sub :: "pyval \<Rightarrow> pyval \<Rightarrow> exn + pyval" where
  "py_sub (PyDate a) (PyDate b) = timedelta (ymd2ord a - ymd2ord b)"
| "py_sub (PyDate d) (PyTimedelta k u) =
     (case date_add d (- k) of Inl e \<Rightarrow> Inl e | Inr d' \<Rightarrow> Inr (PyDate d'))"
| "py_sub (PyDateTime a s) (PyDateTime b t) =
     timedelta_norm (ymd2ord a - ymd2ord b) (s - t)"
| "py_sub (PyDateTime d t) (PyTimedelta k u) = datetime_add d t (- k) (- u)"
| "py_sub (PyTimedelta k u) (PyTimedelta k' u') = timedelta_norm (k - k') (u - u')"
| "py_sub (PyInt a) (PyInt b) = Inr (PyInt (a - b))"
| "py_sub _ _ = Inl TypeError"

text \<open>The attribute \<^verbatim>\<open>.days\<close>: only a timedelta has it.\<close>

fun attr_days :: "pyval \<Rightarrow> exn + pyval" where
  "attr_days (PyTimedelta k u) = Inr (PyInt k)"
| "attr_days _ = Inl AttributeError"

text \<open>Truthiness of an optional integer argument: \<^verbatim>\<open>None\<close> and \<^verbatim>\<open>0\<close> are false.\<close>

fun truthy :: "int option \<Rightarrow> bool" where
  "truthy None = False"
| "truthy (Some n) = (n \<noteq> 0)"

section \<open>DateRecognizer.calculate_expiry_date\<close>

text \<open>
  \<^verbatim>\<open>
  def calculate_expiry_date(self, production_date, shelf_life_months=None, shelf_life_days=None):
      try:
          if shelf_life_months:
              expiry_date = production_date + timedelta(days=shelf_life_months * 30)
          elif shelf_life_days:
              expiry_date = production_date + timedelta(days=shelf_life_days)
          else:
              expiry_date = production_date + timedelta(days=180)
          return expiry_date
      except Exception as e:
          Logger.error(...)
          return None
  \<close>
  \<open>calculate_expiry_try\<close> is the body of the \<^verbatim>\<open>try\<close>; every exception of the model is an
  \<^verbatim>\<open>Exception\<close>, so the handler turns each into \<^verbatim>\<open>None\<close>. The log line is not modelled here.
\<close>

definition plus_days :: "pyval \<Rightarrow> int \<Rightarrow> exn + pyval" where
  "plus_days production_date n =
     (case timedelta n of Inl e \<Rightarrow> Inl e | Inr delta \<Rightarrow> py_add production_date delta)"

definition calculate_expiry_try :: "pyval \<Rightarrow> int option \<Rightarrow> int option \<Rightarrow> exn + pyval" where
  "calculate_expiry_try production_date shelf_life_months shelf_life_days =
     (if truthy shelf_life_months then plus_days production_date (the shelf_life_months * 30)
      else if truthy shelf_life_days then plus_days production_date (the shelf_life_days)
      else plus_days production_date 180)"

definition calculate_expiry_date :: "pyval \<Rightarrow> int option \<Rightarrow> int option \<Rightarrow> pyval" where
  "calculate_expiry_date production_date shelf_life_months shelf_life_days =
     (case calculate_expiry_try production_date shelf_life_months shelf_life_days of
        Inr expiry_date \<Rightarrow> expiry_date
      | Inl e \<Rightarrow> PyNone)"

section \<open>DateRecognizer.get_days_remaining\<close>

text \<open>
  \<^verbatim>\<open>
  def get_days_remaining(self, expiry_date):
      try:
          today = datetime.now().date()
          if isinstance(expiry_date, datetime):
              expiry_date = expiry_date.date()
          remaining = (expiry_date - today).days
          return remaining
      except Exception as e:
          Logger.error(f"Days remaining calculation failed: {e}")
          return 0
  \<close>
  The method reads the wall clock and writes to the log, so it runs in a world that holds
  both: what \<^verbatim>\<open>datetime.now()\<close> returns and the error lines logged so far.
\<close>

record world =
  now_date :: date
  now_us :: int
  error_log :: "exn list"

definition days_remaining_try :: "world \<Rightarrow> pyval \<Rightarrow> exn + pyval" where
  "days_remaining_try w expiry_date =
     (let today = PyDate (now_date w);
          expiry_date = (case expiry_date of PyDateTime d t \<Rightarrow> PyDate d | _ \<Rightarrow> expiry_date)
      in case py_sub expiry_date today of
           Inl e \<Rightarrow> Inl e
         | Inr delta \<Rightarrow> attr_days delta)"

definition get_days_remaining :: "world \<Rightarrow> pyval \<Rightarrow> pyval \<times> world" where
  "get_days_remaining w expiry_date =
     (case days_remaining_try w expiry_date of
        Inr remaining \<Rightarrow> (remaining, w)
      | Inl e \<Rightarrow> (PyInt 0, w\<lparr>error_log := error_log w @ [e]\<rparr>))"

section \<open>Regular expressions, as the re module matches them\<close>

text \<open>
  The recogniser finds its dates with \<^verbatim>\<open>re.findall\<close>, and \<^verbatim>\<open>strptime\<close> matches a regular
  expression built from the format. A text is the list of its code points. The expressions
  used are made of single characters, character classes, \<^verbatim>\<open>\d\<close>, greedy repetition of a
  class, concatenation, alternation and groups.

  \<^verbatim>\<open>\d\<close> is modelled on the ASCII digits \<^verbatim>\<open>0\<close> to \<^verbatim>\<open>9\<close>. (Python's \<^verbatim>\<open>\d\<close> and \<^verbatim>\<open>int\<close> also accept the
  decimal digits of other scripts; texts with such digits are outside this model.)
\<close>

datatype cclass =
    Digit
  | Chars "nat list"
  | Range nat nat

datatype regex =
    Eps
  | Atom cclass
  | Rep cclass nat "nat option"
  | Cat regex regex
  | Alt regex regex
  | Group regex

text \<open>
  Characters are code points. \<open>is_digit\<close> is the class \<^verbatim>\<open>\\d\<close> and the digits of \<^verbatim>\<open>int()\<close>
  restricted to \<^verbatim>\<open>0\<close>..\<^verbatim>\<open>9\<close>: the decimal digits of other scripts, which Python accepts in both
  places, are not digits here.
\<close>

definition is_digit :: "nat \<Rightarrow> bool" where
  "is_digit c = (48 \<le> c \<and> c \<le> 57)"

fun in_class :: "cclass \<Rightarrow> nat \<Rightarrow> bool" where
  "in_class Digit c = is_digit c"
| "in_class (Chars cs) c = (c \<in> set cs)"
| "in_class (Range lo hi) c = (lo \<le> c \<and> c \<le> hi)"

text \<open>
  \<open>rmatch r s\<close> lists the ways \<open>r\<close> matches a prefix of \<open>s\<close>, in the order a backtracking
  matcher tries them (a greedy repetition takes as many characters as it can first; the
  left branch of an alternation comes first), each with the texts of its groups, in the
  order of their opening parentheses, and the text left over. The match the re module
  reports is the first of the list.
\<close>

fun rmatch :: "regex \<Rightarrow> pystr \<Rightarrow> (pystr list \<times> pystr) list" where
  "rmatch Eps s = [([], s)]"
| "rmatch (Atom c) s = (case s of [] \<Rightarrow> [] | x # xs \<Rightarrow> if in_class c x then [([], xs)] else [])"
| "rmatch (Rep c lo hi) s =
     (let n = length (takeWhile (in_class c) s);
          m = (case hi of None \<Rightarrow> n | Some h \<Rightarrow> min n h)
      in map (\<lambda>k. ([], drop k s)) (rev [lo ..< Suc m]))"
| "rmatch (Cat r1 r2) s =
     concat (map (\<lambda>(g1, s1). map (\<lambda>(g2, s2). (g1 @ g2, s2)) (rmatch r2 s1)) (rmatch r1 s))"
| "rmatch (Alt r1 r2) s = rmatch r1 s @ rmatch r2 s"
| "rmatch (Group r) s =
     map (\<lambda>(g, s'). (take (length s - length s') s # g, s')) (rmatch r s)"

fun ngroups :: "regex \<Rightarrow> nat" where
  "ngroups Eps = 0"
| "ngroups (Atom c) = 0"
| "ngroups (Rep c lo hi) = 0"
| "ngroups (Cat r1 r2) = ngroups r1 + ngroups r2"
| "ngroups (Alt r1 r2) = ngroups r1 + ngroups r2"
| "ngroups (Group r) = Suc (ngroups r)"

text \<open>
  One item of the list \<^verbatim>\<open>re.findall\<close> returns: the matched text when the pattern has no
  group, the text of the group when it has one, the tuple of the group texts otherwise.
\<close>

datatype fmatch = MStr pystr | MTuple "pystr list"

definition findall_item :: "regex \<Rightarrow> pystr \<Rightarrow> pystr list \<Rightarrow> pystr \<Rightarrow> fmatch" where
  "findall_item r s g rest =
     (if ngroups r = 0 then MStr (take (length s - length rest) s)
      else if ngroups r = 1 then MStr (hd g)
      else MTuple g)"

text \<open>
  \<^verbatim>\<open>re.findall\<close> scans the text from the left; after a match it goes on where the match
  ended, otherwise at the next character. (No pattern of this program matches the empty
  text; after an empty match the scan moves one character on.)
\<close>

function findall :: "regex \<Rightarrow> pystr \<Rightarrow> fmatch list" where
  "findall r [] = (case rmatch r [] of [] \<Rightarrow> [] | (g, rest) # _ \<Rightarrow> [findall_item r [] g rest])"
| "findall r (x # xs) =
     (case rmatch r (x # xs) of
        [] \<Rightarrow> findall r xs
      | (g, rest) # _ \<Rightarrow>
          findall_item r (x # xs) g rest
            # (if length rest < length (x # xs) then findall r rest else findall r xs))"
  by pat_completeness auto
termination
  by (relation "measure (\<lambda>(r, s). length s)") auto

text \<open>\<^verbatim>\<open>re.match\<close>: the first match at the start of the text, with the text left over.\<close>

definition re_match :: "regex \<Rightarrow> pystr \<Rightarrow> (pystr list \<times> pystr) option" where
  "re_match r s = (case rmatch r s of [] \<Rightarrow> None | m # _ \<Rightarrow> Some m)"

fun cat :: "regex list \<Rightarrow> regex" where
  "cat [] = Eps"
| "cat [r] = r"
| "cat (r # rs) = Cat r (cat rs)"

definition lit :: "nat \<Rightarrow> regex" where
  "lit c = Atom (Chars [c])"

text \<open>
  \<^verbatim>\<open>int(s)\<close>: surrounding white space (modelled: space, tab, line feed, vertical tab, form
  feed, carriage return) is dropped, what remains must be digits. The program applies it to
  digit groups of its patterns, to their single characters, and to the day group of
  \<^verbatim>\<open>strptime\<close>, which may start with a space; the signs and underscores that \<^verbatim>\<open>int\<close> also
  accepts never reach it.
\<close>

definition is_space :: "nat \<Rightarrow> bool" where
  "is_space c = (c = 32 \<or> (9 \<le> c \<and> c \<le> 13))"

definition strip :: "pystr \<Rightarrow> pystr" where
  "strip s = rev (dropWhile is_space (rev (dropWhile is_space s)))"

definition digits_value :: "pystr \<Rightarrow> int" where
  "digits_value s = foldl (\<lambda>a c. a * 10 + (int c - 48)) 0 s"

text \<open>
  The limit of \<^verbatim>\<open>int\<close> on the number of digits (4300 by default, a \<^verbatim>\<open>ValueError\<close> beyond) is
  left out: a longer digit string has its value here.
\<close>

definition py_int :: "pystr \<Rightarrow> exn + int" where
  "py_int s = (let t = strip s
               in if t \<noteq> [] \<and> list_all is_digit t then Inr (digits_value t)
                  else Inl ValueError)"

text \<open>
  The constructors \<^verbatim>\<open>date(year, month, day)\<close> and \<^verbatim>\<open>datetime(year, month, day)\<close>: an argument
  that does not fit a C int is an \<^verbatim>\<open>OverflowError\<close>, fields that are no calendar date are a
  \<^verbatim>\<open>ValueError\<close>. (The datetime is the date at midnight.)
\<close>

definition c_int :: "int \<Rightarrow> bool" where
  "c_int n = (- 2147483648 \<le> n \<and> n \<le> 2147483647)"

definition date_new :: "int \<Rightarrow> int \<Rightarrow> int \<Rightarrow> exn + date" where
  "date_new y m d =
     (if \<not> (c_int y \<and> c_int m \<and> c_int d) then Inl OverflowError
      else if valid_date \<lparr>year = y, month = m, day = d\<rparr>
           then Inr \<lparr>year = y, month = m, day = d\<rparr>
           else Inl ValueError)"

section \<open>DateRecognizer.parse_date_patterns\<close>

text \<open>
  The characters of the patterns, as code points. In the listings below a name in braces
  stands for the character: \<^verbatim>\<open>{nian}\<close> U+5E74 (year), \<^verbatim>\<open>{yue}\<close> U+6708 (month), \<^verbatim>\<open>{ri}\<close> U+65E5
  (day), \<^verbatim>\<open>{sheng}{chan}\<close> U+751F U+4EA7 (to produce), \<^verbatim>\<open>{qi}\<close> U+671F (date, period),
  \<^verbatim>\<open>{zhi_make}{zao}\<close> U+5236 U+9020 (to manufacture), \<^verbatim>\<open>{bao}{zhi_quality}\<close> U+4FDD U+8D28
  (to keep the quality), \<^verbatim>\<open>{zhi_until}\<close> U+81F3 (until), \<^verbatim>\<open>{ge}\<close> U+4E2A (a measure word),
  \<^verbatim>\<open>{wide colon}\<close> U+FF1A.
\<close>

definition ch_nian :: nat where "ch_nian = 24180"
definition ch_yue :: nat where "ch_yue = 26376"
definition ch_ri :: nat where "ch_ri = 26085"
definition ch_sheng :: nat where "ch_sheng = 29983"
definition ch_chan :: nat where "ch_chan = 20135"
definition ch_qi :: nat where "ch_qi = 26399"
definition ch_zhi_make :: nat where "ch_zhi_make = 21046"
definition ch_zao :: nat where "ch_zao = 36896"
definition ch_bao :: nat where "ch_bao = 20445"
definition ch_zhi_quality :: nat where "ch_zhi_quality = 36136"
definition ch_zhi_until :: nat where "ch_zhi_until = 33267"
definition ch_ge :: nat where "ch_ge = 20010"
definition ch_wide_colon :: nat where "ch_wide_colon = 65306"
definition ch_colon :: nat where "ch_colon = 58"
definition ch_minus :: nat where "ch_minus = 45"
definition ch_dot :: nat where "ch_dot = 46"
definition ch_slash :: nat where "ch_slash = 47"

text \<open>The pieces the patterns are made of:
  \<^verbatim>\<open>(\d{4})\<close>, \<^verbatim>\<open>(\d{1,2})\<close>, \<^verbatim>\<open>[-./]\<close>, \<^verbatim>\<open>[-./{nian}]\<close>, \<^verbatim>\<open>[-./{yue}]\<close> and the two colons.\<close>

definition d4 :: regex where "d4 = Group (Rep Digit 4 (Some 4))"
definition d12 :: regex where "d12 = Group (Rep Digit 1 (Some 2))"
definition sep :: regex where "sep = Atom (Chars [ch_minus, ch_dot, ch_slash])"
definition sep_nian :: regex where "sep_nian = Atom (Chars [ch_minus, ch_dot, ch_slash, ch_nian])"
definition sep_yue :: regex where "sep_yue = Atom (Chars [ch_minus, ch_dot, ch_slash, ch_yue])"
definition colon :: cclass where "colon = Chars [ch_wide_colon, ch_colon]"

text \<open>
  \<^verbatim>\<open>
  patterns = [
      r'(\d{4}){nian}(\d{1,2}){yue}(\d{1,2}){ri}',
      r'(\d{4}){nian}(\d{1,2}){yue}',
      r'(\d{4})[-./](\d{1,2})[-./](\d{1,2})',
      r'(\d{4})[-./](\d{1,2})',
      r'{sheng}{chan}{ri}{qi}[{wide colon}:](\d{4})[-./{nian}](\d{1,2})[-./{yue}](\d{1,2})',
      r'{sheng}{chan}[{wide colon}:]*(\d{4})[-./{nian}](\d{1,2})[-./{yue}](\d{1,2})',
      r'{zhi_make}{zao}{ri}{qi}[{wide colon}:](\d{4})[-./{nian}](\d{1,2})[-./{yue}](\d{1,2})',
      r'{bao}{zhi_quality}{qi}[{wide colon}:](\d{1,2})[{ge}]*{yue}',
      r'{bao}{zhi_quality}{qi}{zhi_until}[{wide colon}:]*(\d{4})[-./{nian}](\d{1,2})[-./{yue}](\d{1,2})',
  ]
  \<close>
\<close>

definition pat_cn_ymd :: regex where
  "pat_cn_ymd = cat [d4, lit ch_nian, d12, lit ch_yue, d12, lit ch_ri]"

definition pat_cn_ym :: regex where
  "pat_cn_ym = cat [d4, lit ch_nian, d12, lit ch_yue]"

definition pat_num_ymd :: regex where
  "pat_num_ymd = cat [d4, sep, d12, sep, d12]"

definition pat_num_ym :: regex where
  "pat_num_ym = cat [d4, sep, d12]"

definition pat_production_date :: regex where
  "pat_production_date =
     cat [lit ch_sheng, lit ch_chan, lit ch_ri, lit ch_qi, Atom colon,
          d4, sep_nian, d12, sep_yue, d12]"

definition pat_production :: regex where
  "pat_production =
     cat [lit ch_sheng, lit ch_chan, Rep colon 0 None, d4, sep_nian, d12, sep_yue, d12]"

definition pat_manufacture_date :: regex where
  "pat_manufacture_date =
     cat [lit ch_zhi_make, lit ch_zao, lit ch_ri, lit ch_qi, Atom colon,
          d4, sep_nian, d12, sep_yue, d12]"

definition pat_shelf_life :: regex where
  "pat_shelf_life =
     cat [lit ch_bao, lit ch_zhi_quality, lit ch_qi, Atom colon, d12,
          Rep (Chars [ch_ge]) 0 None, lit ch_yue]"

definition pat_best_before :: regex where
  "pat_best_before =
     cat [lit ch_bao, lit ch_zhi_quality, lit ch_qi, lit ch_zhi_until, Rep colon 0 None,
          d4, sep_nian, d12, sep_yue, d12]"

definition patterns :: "regex list" where
  "patterns = [pat_cn_ymd, pat_cn_ym, pat_num_ymd, pat_num_ym, pat_production_date,
     pat_production, pat_manufacture_date, pat_shelf_life, pat_best_before]"

text \<open>
  One entry of \<^verbatim>\<open>dates\<close>: a dictionary with the keys \<^verbatim>\<open>'date'\<close> (a datetime at midnight) or
  \<^verbatim>\<open>'shelf_life_months'\<close>, and \<^verbatim>\<open>'type'\<close>, \<^verbatim>\<open>'text'\<close>, \<^verbatim>\<open>'confidence'\<close>.
\<close>

datatype cand_type = production_date | shelf_life

record candidate =
  cand_date :: "date option"
  cand_shelf_life_months :: "int option"
  cand_type :: cand_type
  cand_text :: pystr
  cand_confidence :: real

text \<open>
  What \<^verbatim>\<open>len(match)\<close>, \<^verbatim>\<open>map(int, match)\<close> and \<^verbatim>\<open>match[0]\<close> go through: the members of a
  tuple, the characters of a string.
\<close>

fun elems :: "fmatch \<Rightarrow> pystr list" where
  "elems (MTuple gs) = gs"
| "elems (MStr s) = map (\<lambda>c. [c]) s"

text \<open>
  The body of the \<^verbatim>\<open>try\<close> for one match; the result is what it appends to \<^verbatim>\<open>dates\<close>.
  \<^verbatim>\<open>
  if len(match) == 3:
      year, month, day = map(int, match)
      date_obj = datetime(year, month, day)
      dates.append({'date': date_obj, 'type': 'production_date', 'text': text, 'confidence': 0.8})
  elif len(match) == 2:
      year, month = map(int, match)
      date_obj = datetime(year, month, 1)
      dates.append({'date': date_obj, 'type': 'production_date', 'text': text, 'confidence': 0.6})
  elif len(match) == 1:
      shelf_life_months = int(match[0])
      dates.append({'shelf_life_months': shelf_life_months, 'type': 'shelf_life', 'text': text,
                    'confidence': 0.7})
  \<close>
\<close>

definition production_candidate :: "pystr \<Rightarrow> real \<Rightarrow> int \<Rightarrow> int \<Rightarrow> int \<Rightarrow> exn + candidate list"
where
  "production_candidate text conf y m d =
     (case date_new y m d of
        Inl e \<Rightarrow> Inl e
      | Inr date_obj \<Rightarrow>
          Inr [\<lparr>cand_date = Some date_obj, cand_shelf_life_months = None,
                cand_type = production_date, cand_text = text, cand_confidence = conf\<rparr>])"

definition try_match :: "pystr \<Rightarrow> fmatch \<Rightarrow> exn + candidate list" where
  "try_match text match =
     (case elems match of
        [ys, ms, ds] \<Rightarrow>
          (case py_int ys of Inl e \<Rightarrow> Inl e | Inr y \<Rightarrow>
           case py_int ms of Inl e \<Rightarrow> Inl e | Inr m \<Rightarrow>
           case py_int ds of Inl e \<Rightarrow> Inl e | Inr d \<Rightarrow>
             production_candidate text 0.8 y m d)
      | [ys, ms] \<Rightarrow>
          (case py_int ys of Inl e \<Rightarrow> Inl e | Inr y \<Rightarrow>
           case py_int ms of Inl e \<Rightarrow> Inl e | Inr m \<Rightarrow>
             production_candidate text 0.6 y m 1)
      | [ms] \<Rightarrow>
          (case py_int ms of Inl e \<Rightarrow> Inl e | Inr shelf_life_months \<Rightarrow>
             Inr [\<lparr>cand_date = None, cand_shelf_life_months = Some shelf_life_months,
                   cand_type = shelf_life, cand_text = text, cand_confidence = 0.7\<rparr>])
      | _ \<Rightarrow> Inr [])"

text \<open>
  The three loops. \<^verbatim>\<open>except ValueError\<close> drops the match and goes on; any other exception
  leaves the method.
\<close>

fun for_matches :: "pystr \<Rightarrow> fmatch list \<Rightarrow> candidate list \<Rightarrow> exn + candidate list" where
  "for_matches text [] dates = Inr dates"
| "for_matches text (match # matches) dates =
     (case try_match text match of
        Inr new \<Rightarrow> for_matches text matches (dates @ new)
      | Inl e \<Rightarrow> if e = ValueError then for_matches text matches dates else Inl e)"

fun for_patterns :: "pystr \<Rightarrow> regex list \<Rightarrow> candidate list \<Rightarrow> exn + candidate list" where
  "for_patterns text [] dates = Inr dates"
| "for_patterns text (pattern # ps) dates =
     (case for_matches text (findall pattern text) dates of
        Inl e \<Rightarrow> Inl e
      | Inr dates' \<Rightarrow> for_patterns text ps dates')"

fun for_texts :: "pystr list \<Rightarrow> candidate list \<Rightarrow> exn + candidate list" where
  "for_texts [] dates = Inr dates"
| "for_texts (text # texts) dates =
     (case for_patterns text patterns dates of
        Inl e \<Rightarrow> Inl e
      | Inr dates' \<Rightarrow> for_texts texts dates')"

definition parse_date_patterns :: "pystr list \<Rightarrow> exn + candidate list" where
  "parse_date_patterns texts = for_texts texts []"

section \<open>DateRecognizer.recognize_date\<close>

text \<open>
  \<^verbatim>\<open>max(dates, key=lambda x: x.get('confidence', 0))\<close>: the first item whose key no other
  item exceeds. Every entry has a confidence, so the default of \<^verbatim>\<open>get\<close> is never used.
\<close>

fun max_from :: "('a \<Rightarrow> real) \<Rightarrow> 'a \<Rightarrow> 'a list \<Rightarrow> 'a" where
  "max_from key best [] = best"
| "max_from key best (x # xs) = max_from key (if key x > key best then x else best) xs"

definition py_max :: "('a \<Rightarrow> real) \<Rightarrow> 'a list \<Rightarrow> exn + 'a" where
  "py_max key xs = (case xs of [] \<Rightarrow> Inl ValueError | x # rest \<Rightarrow> Inr (max_from key x rest))"

text \<open>
  The part of \<^verbatim>\<open>recognize_date\<close> that follows the two OCR engines, from the texts they
  returned:
  \<^verbatim>\<open>
  if not texts:
      return None
  dates = self.parse_date_patterns(texts)
  if not dates:
      return None
  best_date = max(dates, key=lambda x: x.get('confidence', 0))
  return best_date
  \<close>
  inside \<^verbatim>\<open>try: ... except Exception: return None\<close>.
\<close>

definition recognize_date :: "pystr list \<Rightarrow> candidate option" where
  "recognize_date texts =
     (if texts = [] then None
      else case parse_date_patterns texts of
             Inl e \<Rightarrow> None
           | Inr dates \<Rightarrow>
               if dates = [] then None
               else (case py_max cand_confidence dates of
                       Inl e \<Rightarrow> None
                     | Inr best_date \<Rightarrow> Some best_date))"

section \<open>OCRProcessor.parse_date\<close>

text \<open>
  A \<^verbatim>\<open>strptime\<close> format is a sequence of directives and literal characters. The regular
  expressions of the three directives used are those of the \<^verbatim>\<open>_strptime\<close> module:
  \<^verbatim>\<open>
  'Y': (?P<Y>\d\d\d\d)
  'm': (?P<m>1[0-2]|0[1-9]|[1-9])
  'd': (?P<d>3[0-1]|[1-2]\d|0[1-9]|[1-9]| [1-9])
  \<close>
\<close>

datatype fitem = FY | Fm | Fd | FLit nat

definition re_Y :: regex where
  "re_Y = Group (cat [Atom Digit, Atom Digit, Atom Digit, Atom Digit])"

definition re_m :: regex where
  "re_m = Group (Alt (Cat (lit 49) (Atom (Range 48 50)))
                (Alt (Cat (lit 48) (Atom (Range 49 57)))
                     (Atom (Range 49 57))))"

definition re_d :: regex where
  "re_d = Group (Alt (Cat (lit 51) (Atom (Range 48 49)))
                (Alt (Cat (Atom (Range 49 50)) (Atom Digit))
                (Alt (Cat (lit 48) (Atom (Range 49 57)))
                (Alt (Atom (Range 49 57))
                     (Cat (lit 32) (Atom (Range 49 57)))))))"

fun item_regex :: "fitem \<Rightarrow> regex" where
  "item_regex FY = re_Y"
| "item_regex Fm = re_m"
| "item_regex Fd = re_d"
| "item_regex (FLit c) = lit c"

fun format_regex :: "fitem list \<Rightarrow> regex" where
  "format_regex [] = Eps"
| "format_regex (i # is) = Cat (item_regex i) (format_regex is)"

fun directives :: "fitem list \<Rightarrow> fitem list" where
  "directives [] = []"
| "directives (FLit c # is) = directives is"
| "directives (i # is) = i # directives is"

text \<open>
  \<^verbatim>\<open>datetime.datetime.strptime(date_text, fmt).date()\<close>: the format's regular expression must
  match at the start of the text and use all of it; the fields found (1900, 1 and 1 for a
  directive the format lacks) must be a calendar date. Every failure is a \<^verbatim>\<open>ValueError\<close>.
\<close>

definition found_int :: "(fitem \<times> pystr) list \<Rightarrow> fitem \<Rightarrow> int \<Rightarrow> exn + int" where
  "found_int found i dflt = (case map_of found i of None \<Rightarrow> Inr dflt | Some s \<Rightarrow> py_int s)"

definition strptime_date :: "pystr \<Rightarrow> fitem list \<Rightarrow> exn + date" where
  "strptime_date date_text fmt =
     (case re_match (format_regex fmt) date_text of
        None \<Rightarrow> Inl ValueError
      | Some (groups, rest) \<Rightarrow>
          if rest \<noteq> [] then Inl ValueError
          else let found = zip (directives fmt) groups
               in case found_int found FY 1900 of Inl e \<Rightarrow> Inl e | Inr y \<Rightarrow>
                  case found_int found Fm 1 of Inl e \<Rightarrow> Inl e | Inr m \<Rightarrow>
                  case found_int found Fd 1 of Inl e \<Rightarrow> Inl e | Inr d \<Rightarrow>
                    date_new y m d)"

text \<open>
  \<^verbatim>\<open>
  formats = ['%Y-%m-%d', '%Y/%m/%d', '%Y.%m.%d', '%Y{nian}%m{yue}%d{ri}', '%d-%m-%Y', '%d/%m/%Y',
             '%d.%m.%Y', '%m-%d-%Y', '%m/%d/%Y', '%m.%d.%Y']
  \<close>
\<close>

definition formats :: "fitem list list" where
  "formats =
     [[FY, FLit ch_minus, Fm, FLit ch_minus, Fd],
      [FY, FLit ch_slash, Fm, FLit ch_slash, Fd],
      [FY, FLit ch_dot, Fm, FLit ch_dot, Fd],
      [FY, FLit ch_nian, Fm, FLit ch_yue, Fd, FLit ch_ri],
      [Fd, FLit ch_minus, Fm, FLit ch_minus, FY],
      [Fd, FLit ch_slash, Fm, FLit ch_slash, FY],
      [Fd, FLit ch_dot, Fm, FLit ch_dot, FY],
      [Fm, FLit ch_minus, Fd, FLit ch_minus, FY],
      [Fm, FLit ch_slash, Fd, FLit ch_slash, FY],
      [Fm, FLit ch_dot, Fd, FLit ch_dot, FY]]"

text \<open>
  The loop over the formats: the first format that parses returns; a \<^verbatim>\<open>ValueError\<close> moves
  on to the next format. \<open>None\<close> is the loop running out.
\<close>

fun try_formats :: "pystr \<Rightarrow> fitem list list \<Rightarrow> (exn + date) option" where
  "try_formats date_text [] = None"
| "try_formats date_text (fmt # fmts) =
     (case strptime_date date_text fmt of
        Inr date_obj \<Rightarrow> Some (Inr date_obj)
      | Inl e \<Rightarrow> if e = ValueError then try_formats date_text fmts else Some (Inl e))"

text \<open>
  The digit groups of the fallback, \<^verbatim>\<open>re.findall(r'\d+', date_text)\<close>. The pattern has no
  group, so every item is the matched text.
\<close>

fun item_text :: "fmatch \<Rightarrow> pystr" where
  "item_text (MStr s) = s"
| "item_text (MTuple gs) = concat gs"

definition digit_groups :: "pystr \<Rightarrow> pystr list" where
  "digit_groups date_text = map item_text (findall (Rep Digit 1 None) date_text)"

text \<open>
  \<^verbatim>\<open>
  numbers = re.findall(r'\d+', date_text)
  if len(numbers) >= 3:
      year = int(numbers[0]) if len(numbers[0]) == 4 else int(numbers[2])
      month = int(numbers[1])
      day = int(numbers[2]) if len(numbers[0]) == 4 else int(numbers[0])
      try:
          return datetime.date(year, month, day)
      except ValueError:
          pass
  raise ValueError(...)
  \<close>
\<close>

definition guess_from_numbers :: "pystr \<Rightarrow> exn + date" where
  "guess_from_numbers date_text =
     (case digit_groups date_text of
        n0 # n1 # n2 # _ \<Rightarrow>
          (case py_int (if length n0 = 4 then n0 else n2) of Inl e \<Rightarrow> Inl e | Inr y \<Rightarrow>
           case py_int n1 of Inl e \<Rightarrow> Inl e | Inr m \<Rightarrow>
           case py_int (if length n0 = 4 then n2 else n0) of Inl e \<Rightarrow> Inl e | Inr d \<Rightarrow>
           case date_new y m d of
             Inr date_obj \<Rightarrow> Inr date_obj
           | Inl e \<Rightarrow> if e = ValueError then Inl ValueError else Inl e)
      | _ \<Rightarrow> Inl ValueError)"

definition parse_date :: "pystr \<Rightarrow> exn + date" where
  "parse_date date_text =
     (case try_formats date_text formats of
        Some r \<Rightarrow> r
      | None \<Rightarrow> guess_from_numbers date_text)"

text \<open>
  The text \<^verbatim>\<open>f"{year}-{month:02d}-{day:02d}"\<close> of three integers: a minus sign for a
  negative one, the decimal digits, and zeros in front up to the width asked for.
\<close>

function nat_digits :: "nat \<Rightarrow> pystr" where
  "nat_digits n = (if n < 10 then [48 + n] else nat_digits (n div 10) @ [48 + n mod 10])"
  by pat_completeness auto
termination
  by (relation "measure id") auto

definition format_int :: "nat \<Rightarrow> int \<Rightarrow> pystr" where
  "format_int width n =
     (let body = (if n < 0 then [ch_minus] else []);
          ds = nat_digits (nat (abs n))
      in body @ replicate (width - length body - length ds) 48 @ ds)"

definition iso_text :: "int \<Rightarrow> int \<Rightarrow> int \<Rightarrow> pystr" where
  "iso_text y m d = format_int 0 y @ [ch_minus] @ format_int 2 m @ [ch_minus] @ format_int 2 d"

section \<open>Vocabulary of the statements\<close>

text \<open>
  \<open>in_date_range d n\<close>: the day \<open>n\<close> days after \<open>d\<close> is a day the date type can hold
  (0001-01-01 to 9999-12-31). \<open>days_after d n d'\<close>: \<open>d'\<close> is the calendar date \<open>n\<close> days
  after \<open>d\<close>. \<open>valid_time t\<close>: \<open>t\<close> is a microsecond of the day.
\<close>

definition in_date_range :: "date \<Rightarrow> int \<Rightarrow> bool" where
  "in_date_range d n = (0 < ymd2ord d + n \<and> ymd2ord d + n \<le> MAXORDINAL)"

definition days_after :: "date \<Rightarrow> int \<Rightarrow> date \<Rightarrow> bool" where
  "days_after d n d' = (valid_date d' \<and> ymd2ord d' = ymd2ord d + n)"

definition valid_time :: "int \<Rightarrow> bool" where
  "valid_time t = (0 \<le> t \<and> t < DAY_US)"

definition mk_date :: "int \<Rightarrow> int \<Rightarrow> int \<Rightarrow> date" where
  "mk_date y m d = \<lparr>year = y, month = m, day = d\<rparr>"

text \<open>
  For the patterns: \<open>width r\<close> bounds the number of characters \<open>r\<close> can match (none for an
  unbounded repetition); \<open>group_bound b r\<close> says that no group of \<open>r\<close> can match more than
  \<open>b\<close> characters; \<open>plain r\<close> that no group of \<open>r\<close> lies inside an alternation.
  \<open>pattern_candidates text p\<close> is what one pattern contributes for one text.
\<close>

fun width :: "regex \<Rightarrow> nat option" where
  "width Eps = Some 0"
| "width (Atom c) = Some 1"
| "width (Rep c lo hi) = hi"
| "width (Cat r1 r2) =
     (case width r1 of None \<Rightarrow> None
      | Some a \<Rightarrow> (case width r2 of None \<Rightarrow> None | Some b \<Rightarrow> Some (a + b)))"
| "width (Alt r1 r2) =
     (case width r1 of None \<Rightarrow> None
      | Some a \<Rightarrow> (case width r2 of None \<Rightarrow> None | Some b \<Rightarrow> Some (max a b)))"
| "width (Group r) = width r"

fun group_bound :: "nat \<Rightarrow> regex \<Rightarrow> bool" where
  "group_bound b Eps = True"
| "group_bound b (Atom c) = True"
| "group_bound b (Rep c lo hi) = True"
| "group_bound b (Cat r1 r2) = (group_bound b r1 \<and> group_bound b r2)"
| "group_bound b (Alt r1 r2) = (group_bound b r1 \<and> group_bound b r2)"
| "group_bound b (Group r) =
     ((case width r of None \<Rightarrow> False | Some w \<Rightarrow> w \<le> b) \<and> group_bound b r)"

fun plain :: "regex \<Rightarrow> bool" where
  "plain Eps = True"
| "plain (Atom c) = True"
| "plain (Rep c lo hi) = True"
| "plain (Cat r1 r2) = (plain r1 \<and> plain r2)"
| "plain (Alt r1 r2) = (ngroups r1 = 0 \<and> ngroups r2 = 0 \<and> plain r1 \<and> plain r2)"
| "plain (Group r) = plain r"

definition pattern_candidates :: "pystr \<Rightarrow> regex \<Rightarrow> exn + candidate list" where
  "pattern_candidates text p = for_matches text (findall p text) []"

definition full_date_patterns :: "regex list" where
  "full_date_patterns = [pat_cn_ymd, pat_num_ymd, pat_production_date, pat_production,
     pat_manufacture_date, pat_best_before]"

definition labelled_date_patterns :: "regex list" where
  "labelled_date_patterns = [pat_production_date, pat_production, pat_manufacture_date,
     pat_best_before]"

definition bare_date_patterns :: "regex list" where
  "bare_date_patterns = [pat_cn_ymd, pat_num_ymd]"

text \<open>
  \<open>sound_candidate text c\<close>: the entry \<open>c\<close> carries the text it was found in, a calendar
  date if it carries a date, and one of the three confidences. \<open>ascii s\<close> is the text of
  an ASCII string.
\<close>

definition sound_candidate :: "pystr \<Rightarrow> candidate \<Rightarrow> bool" where
  "sound_candidate text c = (cand_text c = text
     \<and> (case cand_date c of None \<Rightarrow> True | Some d \<Rightarrow> valid_date d)
     \<and> (cand_confidence c = 0.8 \<or> cand_confidence c = 0.6 \<or> cand_confidence c = 0.7))"

definition ascii :: "string \<Rightarrow> pystr" where
  "ascii s = map of_char s"

text \<open>
  For the first format of \<^verbatim>\<open>parse_date\<close>: \<open>fmt_iso\<close> is \<^verbatim>\<open>'%Y-%m-%d'\<close>; \<open>month_ok a b\<close> and
  \<open>day_ok a b\<close> say that the two digits \<open>a b\<close> are matched in full by the directive
  \<^verbatim>\<open>%m\<close>, respectively \<^verbatim>\<open>%d\<close>.
\<close>

definition fmt_iso :: "fitem list" where
  "fmt_iso = [FY, FLit ch_minus, Fm, FLit ch_minus, Fd]"

definition month_ok :: "nat \<Rightarrow> nat \<Rightarrow> bool" where
  "month_ok a b = ((a = 49 \<and> b \<le> 50) \<or> (a = 48 \<and> 49 \<le> b))"

definition day_ok :: "nat \<Rightarrow> nat \<Rightarrow> bool" where
  "day_ok a b = ((a = 51 \<and> b \<le> 49) \<or> a = 49 \<or> a = 50 \<or> (a = 48 \<and> 49 \<le> b))"

text \<open>
  \<open>year_month_candidates text y m\<close>: what the year and month branch appends for the fields
  \<open>y\<close> and \<open>m\<close> found in \<open>text\<close>: the candidate for the first day of that month, with
  confidence 0.6, when that is a calendar date, and nothing otherwise.
\<close>

definition year_month_candidates :: "pystr \<Rightarrow> int \<Rightarrow> int \<Rightarrow> candidate list" where
  "year_month_candidates text y m =
     (if valid_date \<lparr>year = y, month = m, day = 1\<rparr>
      then [\<lparr>cand_date = Some \<lparr>year = y, month = m, day = 1\<rparr>, cand_shelf_life_months = None,
              cand_type = production_date, cand_text = text, cand_confidence = 0.6\<rparr>]
      else [])"

section \<open>Facts about the calendar\<close>

lemma dby_decomp:
  assumes "0 \<le> b" "b \<le> 3" "0 \<le> c" "c \<le> 24" "0 \<le> e" "e \<le> 3"
  shows "days_before_year (400 * a + 100 * b + 4 * c + e + 1)
           = 146097 * a + 36524 * b + 1461 * c + 365 * e"
proof -
  let ?p = "400 * a + 100 * b + 4 * c + e"
  have d4: "?p div 4 = 100 * a + 25 * b + c"
    by (rule int_div_pos_eq [where r = e]) (use assms in auto)
  have d100: "?p div 100 = 4 * a + b"
    by (rule int_div_pos_eq [where r = "4 * c + e"]) (use assms in auto)
  have d400: "?p div 400 = a"
    by (rule int_div_pos_eq [where r = "100 * b + 4 * c + e"]) (use assms in auto)
  show ?thesis
    unfolding days_before_year_def Let_def
    using d4 d100 d400 by simp
qed

lemma mod_zero_top:
  fixes x k :: int
  assumes "1 \<le> x" "x \<le> k"
  shows "(x mod k = 0) = (x = k)"
proof (cases "x = k")
  case True
  then show ?thesis by simp
next
  case False
  with assms have "x mod k = x" by simp
  with False assms show ?thesis by simp
qed

lemma leap_decomp:
  assumes "0 \<le> b" "b \<le> 3" "0 \<le> c" "c \<le> 24" "0 \<le> e" "e \<le> 3"
  shows "is_leap (400 * a + 100 * b + 4 * c + e + 1) = (e = 3 \<and> (c \<noteq> 24 \<or> b = 3))"
proof -
  let ?y = "400 * a + 100 * b + 4 * c + e + 1"
  have "?y = (e + 1) + 4 * (100 * a + 25 * b + c)" by simp
  then have m4: "?y mod 4 = (e + 1) mod 4"
    by (simp only: mod_mult_self2)
  have "?y = (4 * c + e + 1) + 100 * (4 * a + b)" by simp
  then have m100: "?y mod 100 = (4 * c + e + 1) mod 100"
    by (simp only: mod_mult_self2)
  have "?y = (100 * b + 4 * c + e + 1) + 400 * a" by simp
  then have m400: "?y mod 400 = (100 * b + 4 * c + e + 1) mod 400"
    by (simp only: mod_mult_self2)
  have e4: "((e + 1) mod 4 = 0) = (e = 3)"
  proof -
    have "(e + 1 = 4) = (e = 3)" by linarith
    then show ?thesis using mod_zero_top [of "e + 1" 4] assms by simp
  qed
  have c100: "((4 * c + e + 1) mod 100 = 0) = (c = 24 \<and> e = 3)"
  proof -
    have "(4 * c + e + 1 = 100) = (c = 24 \<and> e = 3)"
      using assms by (intro iffI conjI; linarith)
    then show ?thesis using mod_zero_top [of "4 * c + e + 1" 100] assms by simp
  qed
  have b400: "((100 * b + 4 * c + e + 1) mod 400 = 0) = (b = 3 \<and> c = 24 \<and> e = 3)"
  proof -
    have "(100 * b + 4 * c + e + 1 = 400) = (b = 3 \<and> c = 24 \<and> e = 3)"
      using assms by (intro iffI conjI; linarith)
    then show ?thesis using mod_zero_top [of "100 * b + 4 * c + e + 1" 400] assms by simp
  qed
  show ?thesis
    unfolding is_leap_def m4 m100 m400 e4 c100 b400 by auto
qed


lemma month_day_part:
  fixes f :: int and L :: bool
  assumes "0 \<le> f" "f < 365"
    and m0_def: "m0 = (f + 50) div 32"
    and p0_def: "p0 = DAYS_BEFORE_MONTH ! nat m0 + (if m0 > 2 \<and> L then 1 else 0)"
    and m_def: "m = (if p0 > f then m0 - 1 else m0)"
    and p_def: "p = (if p0 > f
     then p0 - (DAYS_IN_MONTH ! nat (m0 - 1) + (if m0 - 1 = 2 \<and> L then 1 else 0)) else p0)"
  shows "1 \<le> m \<and> m \<le> 12
       \<and> p = DAYS_BEFORE_MONTH ! nat m + (if m > 2 \<and> L then 1 else 0)
       \<and> p \<le> f \<and> f < p + (if m = 2 \<and> L then 29 else DAYS_IN_MONTH ! nat m)"
proof -
  have "f + 50 = 32 * m0 + (f + 50) mod 32" by (simp add: m0_def)
  moreover have "0 \<le> (f + 50) mod 32" "(f + 50) mod 32 < 32" by simp_all
  ultimately have lo: "32 * m0 \<le> f + 50" and hi: "f + 50 < 32 * m0 + 32" by linarith+
  from lo hi assms(1,2) have "1 \<le> m0" "m0 \<le> 12" by linarith+
  then have "m0 = 1 \<or> m0 = 2 \<or> m0 = 3 \<or> m0 = 4 \<or> m0 = 5 \<or> m0 = 6
    \<or> m0 = 7 \<or> m0 = 8 \<or> m0 = 9 \<or> m0 = 10 \<or> m0 = 11 \<or> m0 = 12" by presburger
  then consider "m0 = 1" | "m0 = 2" | "m0 = 3" | "m0 = 4" | "m0 = 5" | "m0 = 6"
    | "m0 = 7" | "m0 = 8" | "m0 = 9" | "m0 = 10" | "m0 = 11" | "m0 = 12" by blast
  then show ?thesis
  proof cases
    case 1 with lo hi assms(1,2) show ?thesis
      by (simp add: m_def p_def p0_def DAYS_BEFORE_MONTH_def DAYS_IN_MONTH_def)
  next
    case 2 with lo hi assms(1,2) show ?thesis
      by (simp add: m_def p_def p0_def DAYS_BEFORE_MONTH_def DAYS_IN_MONTH_def)
  next
    case 3 with lo hi assms(1,2) show ?thesis
      by (simp add: m_def p_def p0_def DAYS_BEFORE_MONTH_def DAYS_IN_MONTH_def)
  next
    case 4 with lo hi assms(1,2) show ?thesis
      by (simp add: m_def p_def p0_def DAYS_BEFORE_MONTH_def DAYS_IN_MONTH_def)
  next
    case 5 with lo hi assms(1,2) show ?thesis
      by (simp add: m_def p_def p0_def DAYS_BEFORE_MONTH_def DAYS_IN_MONTH_def)
  next
    case 6 with lo hi assms(1,2) show ?thesis
      by (simp add: m_def p_def p0_def DAYS_BEFORE_MONTH_def DAYS_IN_MONTH_def)
  next
    case 7 with lo hi assms(1,2) show ?thesis
      by (simp add: m_def p_def p0_def DAYS_BEFORE_MONTH_def DAYS_IN_MONTH_def)
  next
    case 8 with lo hi assms(1,2) show ?thesis
      by (simp add: m_def p_def p0_def DAYS_BEFORE_MONTH_def DAYS_IN_MONTH_def)
  next
    case 9 with lo hi assms(1,2) show ?thesis
      by (simp add: m_def p_def p0_def DAYS_BEFORE_MONTH_def DAYS_IN_MONTH_def)
  next
    case 10 with lo hi assms(1,2) show ?thesis
      by (simp add: m_def p_def p0_def DAYS_BEFORE_MONTH_def DAYS_IN_MONTH_def)
  next
    case 11 with lo hi assms(1,2) show ?thesis
      by (simp add: m_def p_def p0_def DAYS_BEFORE_MONTH_def DAYS_IN_MONTH_def)
  next
    case 12 with lo hi assms(1,2) show ?thesis
      by (simp add: m_def p_def p0_def DAYS_BEFORE_MONTH_def DAYS_IN_MONTH_def)
  qed
qed



lemma ord2ymd_unfold:
  assumes "a = (n - 1) div 146097" "r = (n - 1) mod 146097"
    "b = r div 36524" "r2 = r mod 36524" "c = r2 div 1461" "r3 = r2 mod 1461"
    "e = r3 div 365" "f = r3 mod 365"
  shows "ord2ymd n =
    (if e = 4 \<or> b = 4
     then \<lparr>year = a * 400 + 1 + b * 100 + c * 4 + e - 1, month = 12, day = 31\<rparr>
     else if DAYS_BEFORE_MONTH ! nat ((f + 50) div 32)
               + (if (f + 50) div 32 > 2 \<and> (e = 3 \<and> (c \<noteq> 24 \<or> b = 3)) then 1 else 0) > f
          then \<lparr>year = a * 400 + 1 + b * 100 + c * 4 + e, month = (f + 50) div 32 - 1,
                 day = f - (DAYS_BEFORE_MONTH ! nat ((f + 50) div 32)
                   + (if (f + 50) div 32 > 2 \<and> (e = 3 \<and> (c \<noteq> 24 \<or> b = 3)) then 1 else 0)
                   - (DAYS_IN_MONTH ! nat ((f + 50) div 32 - 1)
                      + (if (f + 50) div 32 - 1 = 2 \<and> (e = 3 \<and> (c \<noteq> 24 \<or> b = 3)) then 1 else 0)))
                   + 1\<rparr>
          else \<lparr>year = a * 400 + 1 + b * 100 + c * 4 + e, month = (f + 50) div 32,
                 day = f - (DAYS_BEFORE_MONTH ! nat ((f + 50) div 32)
                   + (if (f + 50) div 32 > 2 \<and> (e = 3 \<and> (c \<noteq> 24 \<or> b = 3)) then 1 else 0))
                   + 1\<rparr>)"
  unfolding ord2ymd_def Let_def assms by (rule refl)

lemma ord_digits:
  fixes k :: int
  assumes "0 \<le> k"
    and a_def: "a = k div 146097" and r_def: "r = k mod 146097"
    and b_def: "b = r div 36524" and r2_def: "r2 = r mod 36524"
    and c_def: "c = r2 div 1461" and r3_def: "r3 = r2 mod 1461"
    and e_def: "e = r3 div 365" and f_def: "f = r3 mod 365"
  shows "k = 146097 * a + 36524 * b + 1461 * c + 365 * e + f"
    and "0 \<le> a" and "0 \<le> b" and "b \<le> 4" and "0 \<le> c" and "c \<le> 24"
    and "0 \<le> e" and "e \<le> 4" and "0 \<le> f" and "f < 365"
    and "b = 4 \<Longrightarrow> c = 0 \<and> e = 0 \<and> f = 0"
    and "e = 4 \<Longrightarrow> f = 0 \<and> c \<le> 23"
proof -
  have k: "k = 146097 * a + r" and r: "0 \<le> r" "r < 146097"
    by (simp_all add: a_def r_def)
  have r': "r = 36524 * b + r2" and r2: "0 \<le> r2" "r2 < 36524"
    by (simp_all add: b_def r2_def)
  have r2': "r2 = 1461 * c + r3" and r3: "0 \<le> r3" "r3 < 1461"
    by (simp_all add: c_def r3_def)
  have r3': "r3 = 365 * e + f" and f: "0 \<le> f" "f < 365"
    by (simp_all add: e_def f_def)
  show "k = 146097 * a + 36524 * b + 1461 * c + 365 * e + f"
    using k r' r2' r3' by simp
  show "0 \<le> a" using assms(1) by (simp add: a_def pos_imp_zdiv_nonneg_iff)
  show b0: "0 \<le> b" using r by (simp add: b_def pos_imp_zdiv_nonneg_iff)
  show b4: "b \<le> 4" using r r' r2 by linarith
  show c0: "0 \<le> c" using r2 by (simp add: c_def pos_imp_zdiv_nonneg_iff)
  show c24: "c \<le> 24" using r2 r2' r3 by linarith
  show e0: "0 \<le> e" using r3 by (simp add: e_def pos_imp_zdiv_nonneg_iff)
  show e4: "e \<le> 4" using r3 r3' f by linarith
  show "0 \<le> f" "f < 365" using f by simp_all
  show "c = 0 \<and> e = 0 \<and> f = 0" if "b = 4"
  proof -
    from that r r' r2 have "r2 = 0" by linarith
    with r2' r3 c0 have "c = 0" "r3 = 0" by linarith+
    with r3' f e0 have "e = 0" "f = 0" by linarith+
    with \<open>c = 0\<close> show ?thesis by simp
  qed
  show "f = 0 \<and> c \<le> 23" if "e = 4"
  proof -
    from that r3 r3' f have "f = 0" "r3 = 1460" by linarith+
    with r2 r2' have "c \<le> 23" by linarith
    with \<open>f = 0\<close> show ?thesis by simp
  qed
qed


lemma ord2ymd_ymd2ord:
  assumes "1 \<le> n"
  shows "ymd2ord (ord2ymd n) = n \<and> 1 \<le> year (ord2ymd n)
       \<and> 1 \<le> month (ord2ymd n) \<and> month (ord2ymd n) \<le> 12 \<and> 1 \<le> day (ord2ymd n)
       \<and> day (ord2ymd n) \<le> days_in_month (year (ord2ymd n)) (month (ord2ymd n))"
proof -
  define a where "a = (n - 1) div 146097"
  define r where "r = (n - 1) mod 146097"
  define b where "b = r div 36524"
  define r2 where "r2 = r mod 36524"
  define c where "c = r2 div 1461"
  define r3 where "r3 = r2 mod 1461"
  define e where "e = r3 div 365"
  define f where "f = r3 mod 365"
  from assms have k0: "0 \<le> n - 1" by simp
  note dig = ord_digits [OF k0 a_def r_def b_def r2_def c_def r3_def e_def f_def]
  note unf = ord2ymd_unfold [OF a_def r_def b_def r2_def c_def r3_def e_def f_def]
  show ?thesis
  proof (cases "b = 4")
    case True
    with dig(11) have z: "c = 0" "e = 0" "f = 0" by simp_all
    have y: "ord2ymd n = \<lparr>year = 400 * a + 400, month = 12, day = 31\<rparr>"
      using unf True z by simp
    have dby: "days_before_year (400 * a + 400) = 146097 * a + 145731"
      using dby_decomp [of 3 24 3 a] by (simp add: add.commute)
    have lp: "is_leap (400 * a + 400)"
      using leap_decomp [of 3 24 3 a] by (simp add: add.commute)
    have n: "n - 1 = 146097 * a + 146096" using dig(1) True z by simp
    show ?thesis unfolding y using dig(2) n
      by (simp add: ymd2ord_def dby lp days_before_month_def days_in_month_def
            DAYS_BEFORE_MONTH_def DAYS_IN_MONTH_def)
  next
    case b4: False
    with dig have b3: "b \<le> 3" by simp
    show ?thesis
    proof (cases "e = 4")
      case True
      with dig(12) have z: "f = 0" "c \<le> 23" by simp_all
      define Y where "Y = 400 * a + 100 * b + 4 * c + 3 + 1"
      have y: "ord2ymd n = \<lparr>year = Y, month = 12, day = 31\<rparr>"
        using unf True by (simp add: Y_def)
      have dby: "days_before_year Y = 146097 * a + 36524 * b + 1461 * c + 365 * 3"
        unfolding Y_def by (rule dby_decomp) (use dig b3 in simp_all)
      have "is_leap Y = (3 = (3::int) \<and> (c \<noteq> 24 \<or> b = 3))"
        unfolding Y_def by (rule leap_decomp) (use dig b3 in simp_all)
      with z have lp: "is_leap Y" by simp
      have n: "n - 1 = 146097 * a + 36524 * b + 1461 * c + 1460" using dig(1) True z by simp
      have ypos: "1 \<le> Y" using dig by (simp add: Y_def)
      show ?thesis unfolding y using n ypos
        by (simp add: ymd2ord_def dby lp days_before_month_def days_in_month_def
              DAYS_BEFORE_MONTH_def DAYS_IN_MONTH_def)
    next
      case False
      with dig have e3: "e \<le> 3" by simp
      define L where "L = (e = 3 \<and> (c \<noteq> 24 \<or> b = 3))"
      define Y where "Y = 400 * a + 100 * b + 4 * c + e + 1"
      have dby: "days_before_year Y = 146097 * a + 36524 * b + 1461 * c + 365 * e"
        unfolding Y_def by (rule dby_decomp) (use dig b3 e3 in simp_all)
      have lp: "is_leap Y = L"
        unfolding Y_def L_def by (rule leap_decomp) (use dig b3 e3 in simp_all)
      have ypos: "1 \<le> Y" using dig by (simp add: Y_def)
      have Yalt: "a * 400 + 1 + b * 100 + c * 4 + e = Y" by (simp add: Y_def)
      define m0 where "m0 = (f + 50) div 32"
      define p0 where "p0 = DAYS_BEFORE_MONTH ! nat m0 + (if m0 > 2 \<and> L then 1 else 0)"
      define m where "m = (if p0 > f then m0 - 1 else m0)"
      define p where "p = (if p0 > f
         then p0 - (DAYS_IN_MONTH ! nat (m0 - 1) + (if m0 - 1 = 2 \<and> L then 1 else 0)) else p0)"
      note md = month_day_part [OF dig(9) dig(10) m0_def p0_def m_def p_def]
      have y: "ord2ymd n = \<lparr>year = Y, month = m, day = f - p + 1\<rparr>"
        unfolding unf m_def p_def p0_def m0_def L_def Yalt [symmetric]
        using b4 False by simp
      have dim: "days_in_month Y m = (if m = 2 \<and> L then 29 else DAYS_IN_MONTH ! nat m)"
        by (simp add: days_in_month_def lp)
      have dbm: "days_before_month Y m = p"
        using md by (simp add: days_before_month_def lp)
      show ?thesis unfolding y using md dig(1) ypos
        by (simp add: ymd2ord_def dby dim dbm)
    qed
  qed
qed

lemma div_succ:
  fixes x k :: int
  assumes "0 < k"
  shows "(x + 1) div k = x div k + (if (x + 1) mod k = 0 then 1 else 0)"
proof (cases "(x + 1) mod k = 0")
  case True
  then obtain q where q: "x + 1 = k * q" by (auto simp: mod_eq_0_iff_dvd)
  then have "x = k * (q - 1) + (k - 1)" by (simp add: algebra_simps)
  then have "x div k = q - 1" using assms by (intro int_div_pos_eq [where r = "k - 1"]) auto
  moreover have "(x + 1) div k = q" using q assms by simp
  ultimately show ?thesis using True by simp
next
  case False
  define r where "r = (x + 1) mod k"
  have "0 \<le> r" "r < k" "r \<noteq> 0" using False assms by (simp_all add: r_def)
  then have r: "0 < r" "r < k" by simp_all
  have "x + 1 = k * ((x + 1) div k) + r" by (simp add: r_def)
  then have "x = k * ((x + 1) div k) + (r - 1)" by simp
  then have "x div k = (x + 1) div k" using r by (intro int_div_pos_eq [where r = "r - 1"]) auto
  then show ?thesis using False by simp
qed


lemma leap_step:
  fixes y q4 q100 q400 t4 t100 t400 :: int
  assumes h4: "t4 = q4 + (if y mod 4 = 0 then 1 else 0)"
    and h100: "t100 = q100 + (if y mod 100 = 0 then 1 else 0)"
    and h400: "t400 = q400 + (if y mod 400 = 0 then 1 else 0)"
    and i1: "y mod 100 = 0 \<Longrightarrow> y mod 4 = 0"
    and i2: "y mod 400 = 0 \<Longrightarrow> y mod 100 = 0"
  shows "y * 365 + t4 - t100 + t400 = ((y - 1) * 365 + q4 - q100 + q400)
     + (if y mod 4 = 0 \<and> (y mod 100 \<noteq> 0 \<or> y mod 400 = 0) then 366 else 365)"
proof (cases "y mod 4 = 0")
  case A: True
  show ?thesis
  proof (cases "y mod 100 = 0")
    case B: True
    show ?thesis
    proof (cases "y mod 400 = 0")
      case True
      with A B h4 h100 h400 show ?thesis by simp
    next
      case False
      with A B h4 h100 h400 show ?thesis by simp
    qed
  next
    case B: False
    with i2 have "y mod 400 \<noteq> 0" by auto
    with A B h4 h100 h400 show ?thesis by simp
  qed
next
  case A: False
  with i1 have B: "y mod 100 \<noteq> 0" by auto
  with i2 have "y mod 400 \<noteq> 0" by auto
  with A B h4 h100 h400 show ?thesis by simp
qed


lemma days_before_year_succ:
  "days_before_year (y + 1) = days_before_year y + (if is_leap y then 366 else 365)"
proof -
  have h4: "y div 4 = (y - 1) div 4 + (if y mod 4 = 0 then 1 else 0)"
    using div_succ [of 4 "y - 1"] by simp
  have h100: "y div 100 = (y - 1) div 100 + (if y mod 100 = 0 then 1 else 0)"
    using div_succ [of 100 "y - 1"] by simp
  have h400: "y div 400 = (y - 1) div 400 + (if y mod 400 = 0 then 1 else 0)"
    using div_succ [of 400 "y - 1"] by simp
  have i1: "y mod 100 = 0 \<Longrightarrow> y mod 4 = 0"
    using dvd_trans [of 4 100 y] by (simp add: mod_eq_0_iff_dvd)
  have i2: "y mod 400 = 0 \<Longrightarrow> y mod 100 = 0"
    using dvd_trans [of 100 400 y] by (simp add: mod_eq_0_iff_dvd)
  have l: "days_before_year (y + 1) = y * 365 + y div 4 - y div 100 + y div 400"
    by (simp add: days_before_year_def)
  have r: "days_before_year y = (y - 1) * 365 + (y - 1) div 4 - (y - 1) div 100 + (y - 1) div 400"
    by (simp add: days_before_year_def Let_def)
  show ?thesis
    unfolding l r is_leap_def by (rule leap_step [OF h4 h100 h400 i1 i2])
qed

lemma days_before_year_mono:
  assumes "y1 \<le> y2"
  shows "days_before_year y1 + 365 * (y2 - y1) \<le> days_before_year y2"
  using assms
proof (induction y2 rule: int_ge_induct)
  case base
  then show ?case by simp
next
  case (step i)
  have "days_before_year (i + 1) = days_before_year i + (if is_leap i then 366 else 365)"
    by (rule days_before_year_succ)
  with step show ?case by (simp split: if_splits)
qed

lemma month_cases:
  fixes m :: int
  assumes "1 \<le> m" "m \<le> 12"
  shows "m = 1 \<or> m = 2 \<or> m = 3 \<or> m = 4 \<or> m = 5 \<or> m = 6
       \<or> m = 7 \<or> m = 8 \<or> m = 9 \<or> m = 10 \<or> m = 11 \<or> m = 12"
  using assms by presburger

lemma day_of_year_bounds:
  assumes "1 \<le> m" "m \<le> 12" "1 \<le> d" "d \<le> days_in_month y m"
  shows "1 \<le> days_before_month y m + d"
    and "days_before_month y m + d \<le> (if is_leap y then 366 else 365)"
  using month_cases [OF assms(1,2)] assms(3,4)
  by (elim disjE; simp add: days_before_month_def days_in_month_def DAYS_BEFORE_MONTH_def
        DAYS_IN_MONTH_def split: if_splits)+

lemma days_before_month_succ:
  assumes "1 \<le> m" "m \<le> 11"
  shows "days_before_month y (m + 1) = days_before_month y m + days_in_month y m"
proof -
  have "m = 1 \<or> m = 2 \<or> m = 3 \<or> m = 4 \<or> m = 5 \<or> m = 6
       \<or> m = 7 \<or> m = 8 \<or> m = 9 \<or> m = 10 \<or> m = 11"
    using assms by presburger
  then show ?thesis
    by (elim disjE) (simp_all add: days_before_month_def days_in_month_def
          DAYS_BEFORE_MONTH_def DAYS_IN_MONTH_def)
qed

lemma days_in_month_pos:
  assumes "1 \<le> m" "m \<le> 12"
  shows "28 \<le> days_in_month y m"
  using month_cases [OF assms]
  by (elim disjE) (simp_all add: days_in_month_def DAYS_IN_MONTH_def)

lemma days_before_month_step:
  assumes "1 \<le> m1" "m1 < m2" "m2 \<le> 12"
  shows "days_before_month y m1 + days_in_month y m1 \<le> days_before_month y m2"
proof -
  have "m1 + 1 \<le> m2" using assms by simp
  then have "m2 \<le> 12 \<longrightarrow> days_before_month y (m1 + 1) \<le> days_before_month y m2"
  proof (induction m2 rule: int_ge_induct)
    case base
    then show ?case by simp
  next
    case (step i)
    show ?case
    proof
      assume i: "i + 1 \<le> 12"
      with step have "days_before_month y (m1 + 1) \<le> days_before_month y i" by simp
      moreover have "days_before_month y (i + 1) = days_before_month y i + days_in_month y i"
        using step(1) assms(1) i by (intro days_before_month_succ) auto
      moreover have "28 \<le> days_in_month y i"
        using step(1) assms(1) i by (intro days_in_month_pos) auto
      ultimately show "days_before_month y (m1 + 1) \<le> days_before_month y (i + 1)" by simp
    qed
  qed
  with assms show ?thesis by (simp add: days_before_month_succ)
qed

lemma ymd2ord_mono:
  assumes "valid_md d1" "valid_md d2" "date_less d1 d2"
  shows "ymd2ord d1 < ymd2ord d2"
proof -
  consider (Y) "year d1 < year d2"
    | (M) "year d1 = year d2" "month d1 < month d2"
    | (D) "year d1 = year d2" "month d1 = month d2" "day d1 < day d2"
    using assms(3) by (auto simp: date_less_def)
  then show ?thesis
  proof cases
    case Y
    have "days_before_month (year d1) (month d1) + day d1 \<le> (if is_leap (year d1) then 366 else 365)"
      using assms(1) by (intro day_of_year_bounds) (auto simp: valid_md_def)
    then have "ymd2ord d1 \<le> days_before_year (year d1 + 1)"
      by (simp add: ymd2ord_def days_before_year_succ)
    also have "\<dots> \<le> days_before_year (year d2)"
      using days_before_year_mono [of "year d1 + 1" "year d2"] Y by simp
    also have "\<dots> < ymd2ord d2"
      using day_of_year_bounds(1) [of "month d2" "day d2" "year d2"] assms(2)
      by (simp add: ymd2ord_def valid_md_def)
    finally show ?thesis .
  next
    case M
    have "days_before_month (year d1) (month d1) + days_in_month (year d1) (month d1)
        \<le> days_before_month (year d1) (month d2)"
      using assms(1,2) M by (intro days_before_month_step) (auto simp: valid_md_def)
    then show ?thesis using assms(1,2) M by (simp add: ymd2ord_def valid_md_def)
  next
    case D
    then show ?thesis by (simp add: ymd2ord_def)
  qed
qed


lemma valid_date_md: "valid_date d \<Longrightarrow> valid_md d"
  by (simp add: valid_date_def valid_md_def)

lemma days_before_year_10000: "days_before_year 10000 = 3652059"
  by (simp add: days_before_year_def)

lemma days_before_year_1: "days_before_year 1 = 0"
  by (simp add: days_before_year_def)

lemma ymd2ord_lower:
  assumes "valid_md d" "1 \<le> year d"
  shows "1 \<le> ymd2ord d"
proof -
  have "days_before_year 1 + 365 * (year d - 1) \<le> days_before_year (year d)"
    using assms(2) by (intro days_before_year_mono)
  then have "0 \<le> days_before_year (year d)" using assms(2) by (simp add: days_before_year_1)
  moreover have "1 \<le> days_before_month (year d) (month d) + day d"
    using assms(1) by (intro day_of_year_bounds) (auto simp: valid_md_def)
  ultimately show ?thesis by (simp add: ymd2ord_def)
qed

lemma ymd2ord_upper:
  assumes "valid_md d" "year d \<le> 9999"
  shows "ymd2ord d \<le> MAXORDINAL"
proof -
  have "days_before_month (year d) (month d) + day d \<le> (if is_leap (year d) then 366 else 365)"
    using assms(1) by (intro day_of_year_bounds) (auto simp: valid_md_def)
  then have "ymd2ord d \<le> days_before_year (year d + 1)"
    by (simp add: ymd2ord_def days_before_year_succ)
  also have "\<dots> \<le> days_before_year 10000"
    using days_before_year_mono [of "year d + 1" 10000] assms(2) by simp
  finally show ?thesis by (simp add: days_before_year_10000 MAXORDINAL_def)
qed

lemma ymd2ord_range:
  assumes "valid_date d"
  shows "1 \<le> ymd2ord d" and "ymd2ord d \<le> MAXORDINAL"
  using assms ymd2ord_lower [of d] ymd2ord_upper [of d]
  by (simp_all add: valid_date_def valid_md_def MINYEAR_def MAXYEAR_def)

lemma year_bound_of_ordinal:
  assumes "valid_md d" "ymd2ord d \<le> MAXORDINAL"
  shows "year d \<le> 9999"
proof (rule ccontr)
  assume "\<not> year d \<le> 9999"
  then have "10000 \<le> year d" by simp
  then have "days_before_year 10000 + 365 * (year d - 10000) \<le> days_before_year (year d)"
    by (intro days_before_year_mono)
  with \<open>10000 \<le> year d\<close> have "3652059 \<le> days_before_year (year d)"
    by (simp add: days_before_year_10000)
  moreover have "1 \<le> days_before_month (year d) (month d) + day d"
    using assms(1) by (intro day_of_year_bounds) (auto simp: valid_md_def)
  ultimately show False using assms(2) by (simp add: ymd2ord_def MAXORDINAL_def)
qed

lemma ord2ymd_valid:
  assumes "1 \<le> n" "n \<le> MAXORDINAL"
  shows "valid_date (ord2ymd n)" and "ymd2ord (ord2ymd n) = n"
proof -
  note r = ord2ymd_ymd2ord [OF assms(1)]
  from r show eq: "ymd2ord (ord2ymd n) = n" by simp
  from r have md: "valid_md (ord2ymd n)" by (simp add: valid_md_def)
  from year_bound_of_ordinal [OF md] eq assms(2) have "year (ord2ymd n) \<le> 9999" by simp
  with r show "valid_date (ord2ymd n)"
    by (simp add: valid_date_def MINYEAR_def MAXYEAR_def)
qed

lemma date_eqI:
  fixes d1 d2 :: date
  assumes "year d1 = year d2" "month d1 = month d2" "day d1 = day d2"
  shows "d1 = d2"
  using assms by (cases d1, cases d2) simp

lemma date_less_total: "d1 = d2 \<or> date_less d1 d2 \<or> date_less d2 d1"
proof (cases "d1 = d2")
  case False
  then have "year d1 \<noteq> year d2 \<or> month d1 \<noteq> month d2 \<or> day d1 \<noteq> day d2"
    using date_eqI [of d1 d2] by blast
  then show ?thesis by (auto simp: date_less_def)
qed simp

lemma ymd2ord_less_iff:
  assumes "valid_md d1" "valid_md d2"
  shows "(ymd2ord d1 < ymd2ord d2) = date_less d1 d2"
proof
  assume l: "ymd2ord d1 < ymd2ord d2"
  from date_less_total [of d1 d2] show "date_less d1 d2"
  proof (elim disjE)
    assume "d1 = d2" with l show ?thesis by simp
  next
    assume "date_less d2 d1"
    from ymd2ord_mono [OF assms(2) assms(1) this] l show ?thesis by simp
  qed
next
  assume "date_less d1 d2"
  then show "ymd2ord d1 < ymd2ord d2" by (rule ymd2ord_mono [OF assms])
qed

lemma ymd2ord_eq_iff:
  assumes "valid_md d1" "valid_md d2"
  shows "(ymd2ord d1 = ymd2ord d2) = (d1 = d2)"
proof
  assume e: "ymd2ord d1 = ymd2ord d2"
  from date_less_total [of d1 d2] show "d1 = d2"
  proof (elim disjE)
    assume "date_less d1 d2"
    from ymd2ord_mono [OF assms this] e show ?thesis by simp
  next
    assume "date_less d2 d1"
    from ymd2ord_mono [OF assms(2) assms(1) this] e show ?thesis by simp
  qed
qed simp

lemma timedelta_days:
  assumes "- 999999999 \<le> n" "n \<le> 999999999"
  shows "timedelta n = Inr (PyTimedelta n 0)"
  using assms by (simp add: timedelta_def timedelta_norm_def Let_def DAY_US_def)

lemma timedelta_overflow:
  assumes "\<not> (- 999999999 \<le> n \<and> n \<le> 999999999)"
  shows "timedelta n = Inl OverflowError"
  using assms by (auto simp: timedelta_def timedelta_norm_def Let_def DAY_US_def)


section \<open>Facts about date arithmetic\<close>

lemma in_range_timedelta:
  assumes "valid_date d" "in_date_range d n"
  shows "timedelta n = Inr (PyTimedelta n 0)"
proof -
  from ymd2ord_range [OF assms(1)] assms(2)
  have "- 999999999 \<le> n" "n \<le> 999999999"
    by (simp_all add: in_date_range_def MAXORDINAL_def)
  then show ?thesis by (rule timedelta_days)
qed

lemma plus_days_datetime:
  assumes "valid_date d" "valid_time t"
  shows "plus_days (PyDateTime d t) n =
     (if in_date_range d n then Inr (PyDateTime (ord2ymd (ymd2ord d + n)) t)
      else Inl OverflowError)"
proof (cases "in_date_range d n")
  case True
  have "t div DAY_US = 0" "t mod DAY_US = t"
    using assms(2) by (simp_all add: valid_time_def DAY_US_def)
  with True in_range_timedelta [OF assms(1) True] show ?thesis
    by (simp add: plus_days_def datetime_add_def Let_def in_date_range_def)
next
  case False
  have t: "t div DAY_US = 0"
    using assms(2) by (simp add: valid_time_def DAY_US_def)
  show ?thesis
  proof (cases "- 999999999 \<le> n \<and> n \<le> 999999999")
    case True
    then have "timedelta n = Inr (PyTimedelta n 0)" by (simp add: timedelta_days)
    with False t show ?thesis
      by (auto simp: plus_days_def datetime_add_def Let_def in_date_range_def)
  next
    case F: False
    with False show ?thesis by (simp add: plus_days_def timedelta_overflow)
  qed
qed

lemma plus_days_date:
  assumes "valid_date d"
  shows "plus_days (PyDate d) n =
     (if in_date_range d n then Inr (PyDate (ord2ymd (ymd2ord d + n)))
      else Inl OverflowError)"
proof (cases "in_date_range d n")
  case True
  with in_range_timedelta [OF assms True] show ?thesis
    by (simp add: plus_days_def date_add_def Let_def in_date_range_def)
next
  case False
  show ?thesis
  proof (cases "- 999999999 \<le> n \<and> n \<le> 999999999")
    case True
    then have "timedelta n = Inr (PyTimedelta n 0)" by (simp add: timedelta_days)
    with False show ?thesis
      by (simp add: plus_days_def date_add_def Let_def in_date_range_def)
  next
    case F: False
    with False show ?thesis by (simp add: plus_days_def timedelta_overflow)
  qed
qed

lemma days_after_ord2ymd:
  assumes "in_date_range d n"
  shows "days_after d n (ord2ymd (ymd2ord d + n))"
  using assms ord2ymd_valid [of "ymd2ord d + n"]
  by (simp add: days_after_def in_date_range_def)

lemma days_after_unique:
  assumes "days_after d n a" "days_after d n b"
  shows "a = b"
  using assms ymd2ord_eq_iff [of a b]
  by (simp add: days_after_def valid_date_md)

lemma expiry_of_datetime:
  assumes "valid_date d" "valid_time t"
  shows "(case plus_days (PyDateTime d t) n of Inr v \<Rightarrow> v | Inl e \<Rightarrow> PyNone) =
     (if in_date_range d n then PyDateTime (ord2ymd (ymd2ord d + n)) t else PyNone)"
  by (simp add: plus_days_datetime [OF assms])

lemma expiry_of_date:
  assumes "valid_date d"
  shows "(case plus_days (PyDate d) n of Inr v \<Rightarrow> v | Inl e \<Rightarrow> PyNone) =
     (if in_date_range d n then PyDate (ord2ymd (ymd2ord d + n)) else PyNone)"
  by (simp add: plus_days_date [OF assms])

lemmas calendar_eval = mk_date_def ymd2ord_def ord2ymd_def days_before_year_def
  days_before_month_def days_in_month_def is_leap_def DAYS_BEFORE_MONTH_def DAYS_IN_MONTH_def
  MAXORDINAL_def MINYEAR_def MAXYEAR_def DAY_US_def valid_date_def valid_time_def
  in_date_range_def Let_def

lemma date_difference:
  assumes "valid_date a" "valid_date b"
  shows "py_sub (PyDate a) (PyDate b) = Inr (PyTimedelta (ymd2ord a - ymd2ord b) 0)"
proof -
  from ymd2ord_range [OF assms(1)] ymd2ord_range [OF assms(2)]
  have "- 999999999 \<le> ymd2ord a - ymd2ord b" "ymd2ord a - ymd2ord b \<le> 999999999"
    by (simp_all add: MAXORDINAL_def)
  then show ?thesis by (simp add: timedelta_days)
qed

lemma days_remaining_try_date:
  assumes "valid_date e" "valid_date (now_date w)"
  shows "days_remaining_try w (PyDate e) = Inr (PyInt (ymd2ord e - ymd2ord (now_date w)))"
    and "days_remaining_try w (PyDateTime e s) = Inr (PyInt (ymd2ord e - ymd2ord (now_date w)))"
  using date_difference [OF assms] by (simp_all add: days_remaining_try_def)

lemma days_remaining_try_int:
  assumes "days_remaining_try w v = Inr r"
  shows "\<exists>n. r = PyInt n"
proof -
  define x where "x = (case v of PyDateTime d t \<Rightarrow> PyDate d | _ \<Rightarrow> v)"
  from assms obtain delta where "attr_days delta = Inr r"
    by (auto simp: days_remaining_try_def Let_def split: sum.splits)
  then show ?thesis by (cases delta) auto
qed

section \<open>Facts about matching\<close>

lemma rmatch_suffix:
  "(g, s') \<in> set (rmatch r s) \<Longrightarrow> \<exists>p. s = p @ s'"
proof (induction r arbitrary: s g s')
  case Eps
  then show ?case by simp
next
  case (Atom c)
  then show ?case by (cases s) (auto split: if_splits)
next
  case (Rep c lo hi)
  then obtain k where "s' = drop k s" by (auto simp: Let_def)
  then have "s = take k s @ s'" by simp
  then show ?case by blast
next
  case (Cat r1 r2)
  then obtain g1 s1 g2 where a: "(g1, s1) \<in> set (rmatch r1 s)" and b: "(g2, s') \<in> set (rmatch r2 s1)"
    by auto
  from Cat.IH(1) [OF a] obtain p where "s = p @ s1" by blast
  moreover from Cat.IH(2) [OF b] obtain q where "s1 = q @ s'" by blast
  ultimately have "s = (p @ q) @ s'" by simp
  then show ?case by blast
next
  case (Alt r1 r2)
  then show ?case by auto
next
  case (Group r)
  then show ?case by auto
qed

lemma rmatch_width:
  "width r = Some w \<Longrightarrow> (g, s') \<in> set (rmatch r s) \<Longrightarrow> length s \<le> w + length s'"
proof (induction r arbitrary: s g s' w)
  case Eps
  then show ?case by simp
next
  case (Atom c)
  then show ?case by (cases s) (auto split: if_splits)
next
  case (Rep c lo hi)
  then obtain k where k: "s' = drop k s" "k \<le> w" by (auto simp: Let_def)
  then show ?case by simp
next
  case (Cat r1 r2)
  from Cat.prems(1) obtain a b where w: "width r1 = Some a" "width r2 = Some b" "w = a + b"
    by (auto split: option.splits)
  from Cat.prems(2) obtain g1 s1 g2 where
    m: "(g1, s1) \<in> set (rmatch r1 s)" "(g2, s') \<in> set (rmatch r2 s1)"
    by auto
  from Cat.IH(1) [OF w(1) m(1)] Cat.IH(2) [OF w(2) m(2)] w(3) show ?case by simp
next
  case (Alt r1 r2)
  from Alt.prems(1) obtain a b where w: "width r1 = Some a" "width r2 = Some b" "w = max a b"
    by (auto split: option.splits)
  from Alt.prems(2) consider "(g, s') \<in> set (rmatch r1 s)" | "(g, s') \<in> set (rmatch r2 s)"
    by auto
  then show ?case
  proof cases
    case 1
    from Alt.IH(1) [OF w(1) 1] w(3) show ?thesis by simp
  next
    case 2
    from Alt.IH(2) [OF w(2) 2] w(3) show ?thesis by simp
  qed
next
  case (Group r)
  then show ?case by auto
qed

lemma rmatch_group_bound:
  "group_bound b r \<Longrightarrow> (g, s') \<in> set (rmatch r s) \<Longrightarrow> \<forall>x \<in> set g. length x \<le> b"
proof (induction r arbitrary: s g s')
  case Eps
  then show ?case by simp
next
  case (Atom c)
  then show ?case by (cases s) (auto split: if_splits)
next
  case (Rep c lo hi)
  then show ?case by (auto simp: Let_def)
next
  case (Cat r1 r2)
  from Cat.prems(2) obtain g1 s1 g2 where
    m: "(g1, s1) \<in> set (rmatch r1 s)" "(g2, s') \<in> set (rmatch r2 s1)" "g = g1 @ g2"
    by auto
  from Cat.IH(1) [OF _ m(1)] Cat.IH(2) [OF _ m(2)] Cat.prems(1) m(3) show ?case by auto
next
  case (Alt r1 r2)
  then show ?case by auto
next
  case (Group r)
  from Group.prems(2) obtain g0 where
    m: "(g0, s') \<in> set (rmatch r s)" "g = take (length s - length s') s # g0"
    by auto
  from Group.prems(1) obtain w where w: "width r = Some w" "w \<le> b" "group_bound b r"
    by (auto split: option.splits)
  from rmatch_width [OF w(1) m(1)] w(2) have "length s - length s' \<le> b" by simp
  moreover from Group.IH [OF w(3) m(1)] have "\<forall>x \<in> set g0. length x \<le> b" .
  ultimately show ?case using m(2) by auto
qed

lemma rmatch_ngroups:
  "plain r \<Longrightarrow> (g, s') \<in> set (rmatch r s) \<Longrightarrow> length g = ngroups r"
proof (induction r arbitrary: s g s')
  case Eps
  then show ?case by simp
next
  case (Atom c)
  then show ?case by (cases s) (auto split: if_splits)
next
  case (Rep c lo hi)
  then show ?case by (auto simp: Let_def)
next
  case (Cat r1 r2)
  from Cat.prems(2) obtain g1 s1 g2 where
    m: "(g1, s1) \<in> set (rmatch r1 s)" "(g2, s') \<in> set (rmatch r2 s1)" "g = g1 @ g2"
    by auto
  from Cat.IH(1) [OF _ m(1)] Cat.IH(2) [OF _ m(2)] Cat.prems(1) m(3) show ?case by auto
next
  case (Alt r1 r2)
  then show ?case by auto
next
  case (Group r)
  then show ?case by auto
qed

text \<open>What findall returns, item by item.\<close>

lemma findall_items:
  assumes "item \<in> set (findall r s)"
  shows "\<exists>t g rest ms. rmatch r t = (g, rest) # ms \<and> item = findall_item r t g rest"
  using assms
proof (induction r s rule: findall.induct)
  case (1 r)
  show ?case
  proof (cases "rmatch r []")
    case Nil
    with 1 show ?thesis by simp
  next
    case (Cons m ms)
    obtain g rest where m: "m = (g, rest)" by (cases m)
    with 1 Cons have "item = findall_item r [] g rest" by simp
    with Cons m show ?thesis by blast
  qed
next
  case (2 r x xs)
  show ?case
  proof (cases "rmatch r (x # xs)")
    case Nil
    with 2 show ?thesis by simp
  next
    case (Cons m ms)
    obtain g rest where m: "m = (g, rest)" by (cases m)
    show ?thesis
    proof (cases "item = findall_item r (x # xs) g rest")
      case True
      with Cons m show ?thesis by blast
    next
      case False
      show ?thesis
      proof (cases "length rest < length (x # xs)")
        case True
        with 2(2,4) Cons m False show ?thesis by (simp split: if_splits)
      next
        case F: False
        with 2(3,4) Cons m False show ?thesis by (simp split: if_splits)
      qed
    qed
  qed
qed

section \<open>Facts about the extraction of one match\<close>

lemma foldl_digits_bound:
  "list_all is_digit t \<Longrightarrow> 0 \<le> a \<Longrightarrow>
     0 \<le> foldl (\<lambda>a c. a * 10 + (int c - 48)) a t
   \<and> foldl (\<lambda>a c. a * 10 + (int c - 48)) a t < (a + 1) * 10 ^ length t"
proof (induction t arbitrary: a)
  case Nil
  then show ?case by simp
next
  case (Cons c t)
  define a' where "a' = a * 10 + (int c - 48)"
  from Cons.prems have c: "48 \<le> int c" "int c \<le> 57" by (simp_all add: is_digit_def)
  with Cons.prems(2) have a': "0 \<le> a'" "a' + 1 \<le> (a + 1) * 10" by (simp_all add: a'_def)
  from Cons.prems(1) have "list_all is_digit t" by simp
  from Cons.IH [OF this a'(1)]
  have ih: "0 \<le> foldl (\<lambda>a c. a * 10 + (int c - 48)) a' t"
    "foldl (\<lambda>a c. a * 10 + (int c - 48)) a' t < (a' + 1) * 10 ^ length t"
    by simp_all
  have le: "(a' + 1) * 10 ^ length t \<le> ((a + 1) * 10) * 10 ^ length t"
    using a'(2) by (intro mult_right_mono) simp_all
  have unf: "foldl (\<lambda>a c. a * 10 + (int c - 48)) a (c # t)
      = foldl (\<lambda>a c. a * 10 + (int c - 48)) a' t"
    by (simp add: a'_def)
  have pw: "(a + 1) * 10 ^ length (c # t) = ((a + 1) * 10) * 10 ^ length t" by simp
  from ih le show ?case unfolding unf pw by linarith
qed

lemma digits_value_bound:
  assumes "list_all is_digit t"
  shows "0 \<le> digits_value t" and "digits_value t < 10 ^ length t"
  using foldl_digits_bound [OF assms, of 0] by (simp_all add: digits_value_def)

lemma length_strip: "length (strip s) \<le> length s"
proof -
  have "length (strip s) \<le> length (dropWhile is_space s)"
    unfolding strip_def using length_dropWhile_le [of is_space "rev (dropWhile is_space s)"]
    by simp
  also have "\<dots> \<le> length s" by (rule length_dropWhile_le)
  finally show ?thesis .
qed

lemma py_int_error: "py_int s = Inl e \<Longrightarrow> e = ValueError"
  by (auto simp: py_int_def Let_def split: if_splits)

lemma py_int_bound:
  assumes "py_int s = Inr n"
  shows "0 \<le> n" and "n < 10 ^ length s"
proof -
  from assms have d: "list_all is_digit (strip s)" and n: "n = digits_value (strip s)"
    by (auto simp: py_int_def Let_def split: if_splits)
  from digits_value_bound [OF d] n show "0 \<le> n" by simp
  have "n < 10 ^ length (strip s)" using digits_value_bound [OF d] n by simp
  also have "\<dots> \<le> (10::int) ^ length s" using length_strip [of s] by (intro power_increasing) simp_all
  finally show "n < 10 ^ length s" .
qed

lemma py_int_c_int:
  assumes "py_int s = Inr n" "length s \<le> 9"
  shows "c_int n"
proof -
  have "n < 10 ^ length s" by (rule py_int_bound [OF assms(1)])
  also have "\<dots> \<le> (10::int) ^ 9" using assms(2) by (intro power_increasing) simp_all
  finally have "n < 10 ^ 9" .
  with py_int_bound(1) [OF assms(1)] show ?thesis by (simp add: c_int_def)
qed

lemma date_new_result:
  assumes "c_int y" "c_int m" "c_int d"
  shows "date_new y m d =
     (if valid_date \<lparr>year = y, month = m, day = d\<rparr> then Inr \<lparr>year = y, month = m, day = d\<rparr>
      else Inl ValueError)"
  using assms by (simp add: date_new_def)

lemma date_new_valid: "date_new y m d = Inr x \<Longrightarrow> valid_date x \<and> x = \<lparr>year = y, month = m, day = d\<rparr>"
  by (auto simp: date_new_def split: if_splits)

lemma production_candidate_result:
  assumes "c_int y" "c_int m" "c_int d" "conf = 0.8 \<or> conf = 0.6"
  shows "production_candidate t conf y m d = Inl ValueError
       \<or> (\<exists>c. production_candidate t conf y m d = Inr [c] \<and> sound_candidate t c
              \<and> cand_confidence c = conf \<and> cand_date c = Some \<lparr>year = y, month = m, day = d\<rparr>)"
  using assms by (auto simp: production_candidate_def date_new_result sound_candidate_def)

lemma try_match_result:
  assumes "\<forall>x \<in> set (elems match). length x \<le> 9"
  shows "try_match text match = Inl ValueError
       \<or> (\<exists>cs. try_match text match = Inr cs \<and> list_all (sound_candidate text) cs)"
proof -
  have c1: "c_int 1" by (simp add: c_int_def)
  consider (three) ys ms ds where "elems match = [ys, ms, ds]"
    | (two) ys ms where "elems match = [ys, ms]"
    | (one) ms where "elems match = [ms]"
    | (other) "elems match = [] \<or> (\<exists>a b c d r. elems match = a # b # c # d # r)"
    by (cases "elems match" rule: list.exhaust)
       (auto intro: list.exhaust simp: neq_Nil_conv, metis list.exhaust)
  then show ?thesis
  proof cases
    case three
    with assms have l: "length ys \<le> 9" "length ms \<le> 9" "length ds \<le> 9" by simp_all
    show ?thesis
    proof (cases "py_int ys")
      case (Inl e)
      with py_int_error [OF Inl] three show ?thesis by (simp add: try_match_def)
    next
      case y: (Inr y)
      show ?thesis
      proof (cases "py_int ms")
        case (Inl e)
        with py_int_error [OF Inl] three y show ?thesis by (simp add: try_match_def)
      next
        case m: (Inr m)
        show ?thesis
        proof (cases "py_int ds")
          case (Inl e)
          with py_int_error [OF Inl] three y m show ?thesis by (simp add: try_match_def)
        next
          case d: (Inr d)
          note cy = py_int_c_int [OF y l(1)]
          note cm = py_int_c_int [OF m l(2)]
          note cd = py_int_c_int [OF d l(3)]
          have "(0.8::real) = 0.8 \<or> (0.8::real) = 0.6" by simp
          from production_candidate_result [OF cy cm cd this, where t = "text"]
          show ?thesis using three y m d by (auto simp: try_match_def)
        qed
      qed
    qed
  next
    case two
    with assms have l: "length ys \<le> 9" "length ms \<le> 9" by simp_all
    show ?thesis
    proof (cases "py_int ys")
      case (Inl e)
      with py_int_error [OF Inl] two show ?thesis by (simp add: try_match_def)
    next
      case y: (Inr y)
      show ?thesis
      proof (cases "py_int ms")
        case (Inl e)
        with py_int_error [OF Inl] two y show ?thesis by (simp add: try_match_def)
      next
        case m: (Inr m)
        note cy = py_int_c_int [OF y l(1)]
        note cm = py_int_c_int [OF m l(2)]
        have "(0.6::real) = 0.8 \<or> (0.6::real) = 0.6" by simp
        from production_candidate_result [OF cy cm c1 this, where t = "text"]
        show ?thesis using two y m by (auto simp: try_match_def)
      qed
    qed
  next
    case one
    show ?thesis
    proof (cases "py_int ms")
      case (Inl e)
      with py_int_error [OF Inl] one show ?thesis by (simp add: try_match_def)
    next
      case (Inr n)
      with one show ?thesis by (simp add: try_match_def sound_candidate_def)
    qed
  next
    case other
    then show ?thesis by (auto simp: try_match_def)
  qed
qed

section \<open>Facts about the loops of parse_date_patterns\<close>

lemma for_matches_all:
  assumes "\<forall>m \<in> set ms. try_match text m = Inl ValueError
             \<or> (\<exists>cs. try_match text m = Inr cs \<and> list_all Q cs)"
  shows "\<exists>cs. for_matches text ms dates = Inr (dates @ cs) \<and> list_all Q cs"
  using assms
proof (induction ms arbitrary: dates)
  case Nil
  then show ?case by simp
next
  case (Cons m ms)
  from Cons.prems have rest: "\<forall>m \<in> set ms. try_match text m = Inl ValueError
             \<or> (\<exists>cs. try_match text m = Inr cs \<and> list_all Q cs)" by simp
  from Cons.prems consider "try_match text m = Inl ValueError"
    | cs where "try_match text m = Inr cs" "list_all Q cs" by auto
  then show ?case
  proof cases
    case 1
    with Cons.IH [OF rest, of dates] show ?thesis by simp
  next
    case 2
    from Cons.IH [OF rest, of "dates @ cs"] obtain cs' where
      "for_matches text ms (dates @ cs) = Inr ((dates @ cs) @ cs')" "list_all Q cs'" by blast
    with 2 have "for_matches text (m # ms) dates = Inr (dates @ (cs @ cs'))"
      "list_all Q (cs @ cs')" by simp_all
    then show ?thesis by blast
  qed
qed

lemma findall_item_elems:
  assumes "group_bound b r" "rmatch r t = (g, rest) # ms" "1 \<le> b"
  shows "\<forall>x \<in> set (elems (findall_item r t g rest)). length x \<le> b"
proof -
  have m: "(g, rest) \<in> set (rmatch r t)" using assms(2) by simp
  from rmatch_group_bound [OF assms(1) m] assms(3) show ?thesis
    by (auto simp: findall_item_def)
qed

lemma findall_elems_bound:
  assumes "group_bound b r" "1 \<le> b" "m \<in> set (findall r s)"
  shows "\<forall>x \<in> set (elems m). length x \<le> b"
proof -
  from findall_items [OF assms(3)] obtain t g rest ms where
    "rmatch r t = (g, rest) # ms" "m = findall_item r t g rest" by blast
  with findall_item_elems [OF assms(1) _ assms(2)] show ?thesis by blast
qed

lemma pattern_candidates_sound:
  assumes "group_bound 9 p"
  shows "\<exists>cs. for_matches text (findall p text) dates = Inr (dates @ cs)
              \<and> list_all (sound_candidate text) cs"
proof (rule for_matches_all)
  show "\<forall>m \<in> set (findall p text). try_match text m = Inl ValueError
          \<or> (\<exists>cs. try_match text m = Inr cs \<and> list_all (sound_candidate text) cs)"
  proof
    fix m assume "m \<in> set (findall p text)"
    from findall_elems_bound [OF assms _ this] have "\<forall>x \<in> set (elems m). length x \<le> 9" by simp
    then show "try_match text m = Inl ValueError
          \<or> (\<exists>cs. try_match text m = Inr cs \<and> list_all (sound_candidate text) cs)"
      by (rule try_match_result)
  qed
qed

lemma for_patterns_sound:
  assumes "\<forall>p \<in> set ps. group_bound 9 p"
  shows "\<exists>cs. for_patterns text ps dates = Inr (dates @ cs) \<and> list_all (sound_candidate text) cs"
  using assms
proof (induction ps arbitrary: dates)
  case Nil
  then show ?case by simp
next
  case (Cons p ps)
  from Cons.prems have p: "group_bound 9 p" and rest: "\<forall>p \<in> set ps. group_bound 9 p" by simp_all
  from pattern_candidates_sound [OF p, of "text" dates] obtain cs where
    a: "for_matches text (findall p text) dates = Inr (dates @ cs)"
    "list_all (sound_candidate text) cs" by blast
  from Cons.IH [OF rest, of "dates @ cs"] obtain cs' where
    b: "for_patterns text ps (dates @ cs) = Inr ((dates @ cs) @ cs')"
    "list_all (sound_candidate text) cs'" by blast
  from a b have "for_patterns text (p # ps) dates = Inr (dates @ (cs @ cs'))"
    "list_all (sound_candidate text) (cs @ cs')" by simp_all
  then show ?case by blast
qed


lemmas chars_eval = ch_nian_def ch_yue_def ch_ri_def ch_sheng_def ch_chan_def ch_qi_def
  ch_zhi_make_def ch_zao_def ch_bao_def ch_zhi_quality_def ch_zhi_until_def ch_ge_def
  ch_wide_colon_def ch_colon_def ch_minus_def ch_dot_def ch_slash_def

lemmas patterns_eval = patterns_def pat_cn_ymd_def pat_cn_ym_def pat_num_ymd_def pat_num_ym_def
  pat_production_date_def pat_production_def pat_manufacture_date_def pat_shelf_life_def
  pat_best_before_def d4_def d12_def sep_def sep_nian_def sep_yue_def colon_def lit_def

lemma patterns_group_bound: "\<forall>p \<in> set patterns. group_bound 9 p"
  by (simp add: patterns_eval)

lemma for_texts_sound:
  "\<exists>cs. for_texts texts dates = Inr (dates @ cs)
        \<and> list_all (\<lambda>c. \<exists>t \<in> set texts. sound_candidate t c) cs"
proof (induction texts arbitrary: dates)
  case Nil
  then show ?case by simp
next
  case (Cons t texts)
  from for_patterns_sound [OF patterns_group_bound, of t dates] obtain cs where
    a: "for_patterns t patterns dates = Inr (dates @ cs)" "list_all (sound_candidate t) cs"
    by blast
  from Cons.IH [of "dates @ cs"] obtain cs' where
    b: "for_texts texts (dates @ cs) = Inr ((dates @ cs) @ cs')"
    "list_all (\<lambda>c. \<exists>t \<in> set texts. sound_candidate t c) cs'" by blast
  from a(2) have c: "list_all (\<lambda>c. \<exists>u \<in> set (t # texts). sound_candidate u c) cs"
    by (auto simp: list_all_iff)
  from b(2) have d: "list_all (\<lambda>c. \<exists>u \<in> set (t # texts). sound_candidate u c) cs'"
    by (auto simp: list_all_iff)
  from a b have "for_texts (t # texts) dates = Inr (dates @ (cs @ cs'))" by simp
  moreover from c d have "list_all (\<lambda>c. \<exists>u \<in> set (t # texts). sound_candidate u c) (cs @ cs')"
    by simp
  ultimately show ?case by blast
qed

lemma parse_date_patterns_sound:
  "\<exists>dates. parse_date_patterns texts = Inr dates
        \<and> list_all (\<lambda>c. \<exists>t \<in> set texts. sound_candidate t c) dates"
  using for_texts_sound [of texts "[]"] by (simp add: parse_date_patterns_def)

lemma production_candidate_confidence:
  assumes "production_candidate t conf y m d = Inr cs" "c \<in> set cs"
  shows "cand_confidence c = conf"
  using assms by (auto simp: production_candidate_def split: sum.splits)

lemma try_match_confidence:
  assumes "try_match t m = Inr cs" "c \<in> set cs"
  shows "(length (elems m) = 3 \<and> cand_confidence c = 0.8)
       \<or> (length (elems m) = 2 \<and> cand_confidence c = 0.6)
       \<or> (length (elems m) = 1 \<and> cand_confidence c = 0.7)"
proof (cases "elems m")
  case Nil
  with assms show ?thesis by (simp add: try_match_def)
next
  case (Cons a as)
  note A = this
  show ?thesis
  proof (cases as)
    case Nil
    with A assms show ?thesis by (auto simp: try_match_def split: sum.splits)
  next
    case (Cons b bs)
    note B = this
    show ?thesis
    proof (cases bs)
      case Nil
      with A B assms show ?thesis
        by (auto simp: try_match_def split: sum.splits dest: production_candidate_confidence)
    next
      case (Cons c' cs')
      note C = this
      show ?thesis
      proof (cases cs')
        case Nil
        with A B C assms show ?thesis
          by (auto simp: try_match_def split: sum.splits dest: production_candidate_confidence)
      next
        case (Cons d ds)
        with A B C assms show ?thesis by (simp add: try_match_def)
      qed
    qed
  qed
qed

lemma pattern_candidates_confidence:
  assumes gb: "group_bound 9 p"
    and len: "\<forall>m \<in> set (findall p t). length (elems m) = 3 \<longrightarrow> Q 0.8"
    and len2: "\<forall>m \<in> set (findall p t). length (elems m) = 2 \<longrightarrow> Q 0.6"
    and len1: "\<forall>m \<in> set (findall p t). length (elems m) = 1 \<longrightarrow> Q 0.7"
  shows "\<exists>cs. pattern_candidates t p = Inr cs \<and> list_all (\<lambda>c. Q (cand_confidence c)) cs"
proof -
  have "\<exists>cs. for_matches t (findall p t) [] = Inr ([] @ cs)
          \<and> list_all (\<lambda>c. Q (cand_confidence c)) cs"
  proof (rule for_matches_all)
    show "\<forall>m \<in> set (findall p t). try_match t m = Inl ValueError
          \<or> (\<exists>cs. try_match t m = Inr cs \<and> list_all (\<lambda>c. Q (cand_confidence c)) cs)"
    proof
      fix m assume m: "m \<in> set (findall p t)"
      from findall_elems_bound [OF gb _ m] have "\<forall>x \<in> set (elems m). length x \<le> 9" by simp
      from try_match_result [OF this, of t]
      consider "try_match t m = Inl ValueError" | cs where "try_match t m = Inr cs" by blast
      then show "try_match t m = Inl ValueError
          \<or> (\<exists>cs. try_match t m = Inr cs \<and> list_all (\<lambda>c. Q (cand_confidence c)) cs)"
      proof cases
        case 1
        then show ?thesis by simp
      next
        case 2
        have "list_all (\<lambda>c. Q (cand_confidence c)) cs"
          unfolding list_all_iff
        proof
          fix c assume "c \<in> set cs"
          from try_match_confidence [OF 2 this]
          show "Q (cand_confidence c)"
          proof (elim disjE conjE)
            assume a: "length (elems m) = 3" "cand_confidence c = 0.8"
            from len m a(1) have "Q 0.8" by blast
            then show ?thesis by (simp only: a(2))
          next
            assume a: "length (elems m) = 2" "cand_confidence c = 0.6"
            from len2 m a(1) have "Q 0.6" by blast
            then show ?thesis by (simp only: a(2))
          next
            assume a: "length (elems m) = 1" "cand_confidence c = 0.7"
            from len1 m a(1) have "Q 0.7" by blast
            then show ?thesis by (simp only: a(2))
          qed
        qed
        with 2 show ?thesis by blast
      qed
    qed
  qed
  then show ?thesis by (simp add: pattern_candidates_def)
qed

lemma findall_tuple:
  assumes "plain r" "2 \<le> ngroups r" "m \<in> set (findall r s)"
  shows "length (elems m) = ngroups r"
proof -
  from findall_items [OF assms(3)] obtain t g rest ms where
    a: "rmatch r t = (g, rest) # ms" "m = findall_item r t g rest" by blast
  then have "(g, rest) \<in> set (rmatch r t)" by simp
  from rmatch_ngroups [OF assms(1) this] a(2) assms(2) show ?thesis
    by (simp add: findall_item_def)
qed

lemma findall_single:
  assumes "plain r" "ngroups r = 1" "group_bound b r" "m \<in> set (findall r s)"
  shows "length (elems m) \<le> b"
proof -
  from findall_items [OF assms(4)] obtain t g rest ms where
    a: "rmatch r t = (g, rest) # ms" "m = findall_item r t g rest" by blast
  then have in_r: "(g, rest) \<in> set (rmatch r t)" by simp
  from rmatch_ngroups [OF assms(1) in_r] assms(2) have "length g = 1" by simp
  then obtain x where g: "g = [x]" by (cases g) auto
  from rmatch_group_bound [OF assms(3) in_r] g have "length x \<le> b" by simp
  with a(2) g assms(2) show ?thesis by (simp add: findall_item_def)
qed

lemma full_date_patterns_shape:
  "\<forall>p \<in> set full_date_patterns. plain p \<and> ngroups p = 3 \<and> group_bound 9 p"
  by (simp add: full_date_patterns_def patterns_eval)

lemma shelf_life_pattern_shape:
  "plain pat_shelf_life \<and> ngroups pat_shelf_life = 1 \<and> group_bound 2 pat_shelf_life
   \<and> group_bound 9 pat_shelf_life"
  by (simp add: patterns_eval)

lemma max_from_first:
  "\<exists>i < length (b # xs). max_from key b xs = (b # xs) ! i
     \<and> (\<forall>j < length (b # xs). key ((b # xs) ! j) \<le> key ((b # xs) ! i))
     \<and> (\<forall>j < i. key ((b # xs) ! j) < key ((b # xs) ! i))"
proof (induction xs arbitrary: b)
  case Nil
  then show ?case by simp
next
  case (Cons x xs)
  show ?case
  proof (cases "key x > key b")
    case True
    from Cons.IH [of x] obtain i where i: "i < length (x # xs)"
      "max_from key x xs = (x # xs) ! i"
      "\<forall>j < length (x # xs). key ((x # xs) ! j) \<le> key ((x # xs) ! i)"
      "\<forall>j < i. key ((x # xs) ! j) < key ((x # xs) ! i)" by blast
    from i(3) have xi: "key x \<le> key ((x # xs) ! i)" by auto
    have "Suc i < length (b # x # xs)" using i(1) by simp
    moreover have "max_from key b (x # xs) = (b # x # xs) ! Suc i" using True i(2) by simp
    moreover have "\<forall>j < length (b # x # xs). key ((b # x # xs) ! j) \<le> key ((b # x # xs) ! Suc i)"
    proof (intro allI impI)
      fix j assume "j < length (b # x # xs)"
      then show "key ((b # x # xs) ! j) \<le> key ((b # x # xs) ! Suc i)"
        using i(3) xi True by (cases j) auto
    qed
    moreover have "\<forall>j < Suc i. key ((b # x # xs) ! j) < key ((b # x # xs) ! Suc i)"
    proof (intro allI impI)
      fix j assume "j < Suc i"
      then show "key ((b # x # xs) ! j) < key ((b # x # xs) ! Suc i)"
        using i(4) xi True by (cases j) auto
    qed
    ultimately show ?thesis by blast
  next
    case False
    from Cons.IH [of b] obtain i where i: "i < length (b # xs)"
      "max_from key b xs = (b # xs) ! i"
      "\<forall>j < length (b # xs). key ((b # xs) ! j) \<le> key ((b # xs) ! i)"
      "\<forall>j < i. key ((b # xs) ! j) < key ((b # xs) ! i)" by blast
    from i(3) have bi: "key b \<le> key ((b # xs) ! i)" by auto
    show ?thesis
    proof (cases i)
      case 0
      have "0 < length (b # x # xs)" by simp
      moreover have "max_from key b (x # xs) = (b # x # xs) ! 0" using False i(2) 0 by simp
      moreover have "\<forall>j < length (b # x # xs). key ((b # x # xs) ! j) \<le> key ((b # x # xs) ! 0)"
      proof (intro allI impI)
        fix j assume j: "j < length (b # x # xs)"
        show "key ((b # x # xs) ! j) \<le> key ((b # x # xs) ! 0)"
        proof (cases j)
          case 0
          then show ?thesis by simp
        next
          case (Suc k)
          show ?thesis
          proof (cases k)
            case 0
            with Suc False show ?thesis by simp
          next
            case (Suc l)
            with \<open>j = Suc k\<close> j have "Suc l < length (b # xs)" by simp
            with i(3) \<open>i = 0\<close> have "key ((b # xs) ! Suc l) \<le> key b" by auto
            with Suc \<open>j = Suc k\<close> show ?thesis by simp
          qed
        qed
      qed
      ultimately show ?thesis by blast
    next
      case (Suc n)
      have "Suc i < length (b # x # xs)" using i(1) by simp
      moreover have "max_from key b (x # xs) = (b # x # xs) ! Suc i" using False i(2) Suc by simp
      moreover have "\<forall>j < length (b # x # xs). key ((b # x # xs) ! j) \<le> key ((b # x # xs) ! Suc i)"
      proof (intro allI impI)
        fix j assume j: "j < length (b # x # xs)"
        show "key ((b # x # xs) ! j) \<le> key ((b # x # xs) ! Suc i)"
        proof (cases j)
          case 0
          with bi Suc show ?thesis by simp
        next
          case (Suc k)
          show ?thesis
          proof (cases k)
            case 0
            with Suc False bi \<open>i = Suc n\<close> show ?thesis by simp
          next
            case (Suc l)
            with \<open>j = Suc k\<close> j have "Suc l < length (b # xs)" by simp
            with i(3) have "key ((b # xs) ! Suc l) \<le> key ((b # xs) ! i)" by blast
            with Suc \<open>j = Suc k\<close> \<open>i = Suc n\<close> show ?thesis by simp
          qed
        qed
      qed
      moreover have "\<forall>j < Suc i. key ((b # x # xs) ! j) < key ((b # x # xs) ! Suc i)"
      proof (intro allI impI)
        fix j assume j: "j < Suc i"
        have b_lt: "key b < key ((b # xs) ! i)" using i(4) Suc by auto
        show "key ((b # x # xs) ! j) < key ((b # x # xs) ! Suc i)"
        proof (cases j)
          case 0
          with b_lt Suc show ?thesis by simp
        next
          case (Suc k)
          show ?thesis
          proof (cases k)
            case 0
            with Suc False b_lt \<open>i = Suc n\<close> show ?thesis by simp
          next
            case (Suc l)
            with \<open>j = Suc k\<close> j have "Suc l < i" by simp
            with i(4) have "key ((b # xs) ! Suc l) < key ((b # xs) ! i)" by blast
            with Suc \<open>j = Suc k\<close> \<open>i = Suc n\<close> show ?thesis by simp
          qed
        qed
      qed
      ultimately show ?thesis by blast
    qed
  qed
qed

lemmas extract_eval = pattern_candidates_def parse_date_patterns_def try_match_def
  production_candidate_def py_int_def strip_def is_space_def digits_value_def date_new_def
  c_int_def findall_item_def is_digit_def valid_date_def days_in_month_def is_leap_def
  DAYS_IN_MONTH_def MINYEAR_def MAXYEAR_def mk_date_def ascii_def

section \<open>Facts about strptime and parse_date\<close>

lemma dropWhile_none:
  assumes "\<forall>x \<in> set s. \<not> P x"
  shows "dropWhile P s = s"
  using assms by (cases s) simp_all

lemma strip_digits:
  assumes "list_all is_digit s"
  shows "strip s = s"
proof -
  from assms have n: "\<forall>x \<in> set s. \<not> is_space x"
    by (auto simp: list_all_iff is_digit_def is_space_def)
  then have "\<forall>x \<in> set (rev s). \<not> is_space x" by simp
  then have "dropWhile is_space (rev s) = rev s" by (rule dropWhile_none)
  with dropWhile_none [OF n] show ?thesis by (simp add: strip_def)
qed

lemma py_int_digits:
  assumes "list_all is_digit s" "s \<noteq> []"
  shows "py_int s = Inr (digits_value s)"
  using assms strip_digits [OF assms(1)] by (simp add: py_int_def)

lemma rmatch_re_m:
  assumes "is_digit a" "is_digit b" "\<not> is_digit c"
  shows "rmatch (Cat re_m (Cat (lit c) r)) (a # b # c # s)
     = (if month_ok a b then map (\<lambda>(g, s'). ([a, b] # g, s')) (rmatch r s) else [])"
  using assms
  by (auto simp: re_m_def lit_def month_ok_def is_digit_def)

lemma rmatch_re_Y:
  assumes "is_digit a" "is_digit b" "is_digit c" "is_digit d"
  shows "rmatch (Cat re_Y r) (a # b # c # d # s)
     = map (\<lambda>(g, s'). ([a, b, c, d] # g, s')) (rmatch r s)"
  using assms by (simp add: re_Y_def)

lemma rmatch_lit:
  "rmatch (Cat (lit c) r) (x # s) = (if x = c then rmatch r s else [])"
  by (simp add: lit_def)

lemma rmatch_re_d_end:
  assumes "is_digit a" "is_digit b"
  shows "rmatch (Cat re_d Eps) [a, b]
     = (if day_ok a b then [([[a, b]], [])] else [])
       @ (if 49 \<le> a then [([[a]], [b])] else [])"
  using assms
  by (auto simp: re_d_def lit_def day_ok_def is_digit_def)

lemma digits_value_c_int:
  assumes "list_all is_digit s" "length s \<le> 9"
  shows "c_int (digits_value s)"
proof -
  have "digits_value s < 10 ^ length s" by (rule digits_value_bound [OF assms(1)])
  also have "\<dots> \<le> (10::int) ^ 9" using assms(2) by (intro power_increasing) simp_all
  finally have "digits_value s < 10 ^ 9" .
  with digits_value_bound(1) [OF assms(1)] show ?thesis by (simp add: c_int_def)
qed

lemma strptime_iso:
  assumes "list_all is_digit [y1, y2, y3, y4]" "list_all is_digit [m1, m2]"
    "list_all is_digit [d1, d2]"
  shows "strptime_date [y1, y2, y3, y4, ch_minus, m1, m2, ch_minus, d1, d2] fmt_iso
     = (if month_ok m1 m2 \<and> day_ok d1 d2
        then date_new (digits_value [y1, y2, y3, y4]) (digits_value [m1, m2])
               (digits_value [d1, d2])
        else Inl ValueError)"
proof -
  from assms have d: "is_digit y1" "is_digit y2" "is_digit y3" "is_digit y4"
    "is_digit m1" "is_digit m2" "is_digit d1" "is_digit d2" by simp_all
  have nd: "\<not> is_digit ch_minus" by (simp add: is_digit_def ch_minus_def)
  have r: "rmatch (format_regex fmt_iso) [y1, y2, y3, y4, ch_minus, m1, m2, ch_minus, d1, d2]
     = (if month_ok m1 m2
        then (if day_ok d1 d2 then [([[y1, y2, y3, y4], [m1, m2], [d1, d2]], [])] else [])
             @ (if 49 \<le> d1 then [([[y1, y2, y3, y4], [m1, m2], [d1]], [d2])] else [])
        else [])"
    by (simp add: fmt_iso_def rmatch_re_Y [OF d(1-4)] rmatch_lit rmatch_re_m [OF d(5,6) nd]
          rmatch_re_d_end [OF d(7,8)] del: rmatch.simps)
  have py: "py_int [y1, y2, y3, y4] = Inr (digits_value [y1, y2, y3, y4])"
    "py_int [m1, m2] = Inr (digits_value [m1, m2])"
    "py_int [d1, d2] = Inr (digits_value [d1, d2])"
    using assms by (simp_all add: py_int_digits)
  show ?thesis
    unfolding strptime_date_def re_match_def r
    using py by (simp add: fmt_iso_def found_int_def)
qed

lemma rmatch_re_d_fail:
  assumes "is_digit a" "is_digit b" "is_digit x" "\<not> is_digit c"
  shows "rmatch (Cat re_d (Cat (lit c) r)) (a # b # x # s) = []"
  using assms by (auto simp: re_d_def lit_def is_digit_def)

lemma rmatch_re_m_fail:
  assumes "is_digit a" "is_digit b" "is_digit x" "\<not> is_digit c"
  shows "rmatch (Cat re_m (Cat (lit c) r)) (a # b # x # s) = []"
  using assms by (auto simp: re_m_def lit_def is_digit_def)

lemma strptime_no_match:
  assumes "rmatch (format_regex fmt) s = []"
  shows "strptime_date s fmt = Inl ValueError"
  using assms by (simp add: strptime_date_def re_match_def)

lemma rmatch_digit_run:
  assumes "list_all is_digit ds" "ds \<noteq> []" "rest = [] \<or> \<not> is_digit (hd rest)"
  shows "\<exists>ms. rmatch (Rep Digit 1 None) (ds @ rest) = ([], rest) # ms"
proof -
  have tw: "takeWhile (in_class Digit) (ds @ rest) = ds"
  proof -
    have a: "\<forall>x \<in> set ds. in_class Digit x" using assms(1) by (simp add: list_all_iff)
    have "takeWhile (in_class Digit) rest = []"
      using assms(3) by (cases rest) auto
    with a show ?thesis by (simp add: takeWhile_append2)
  qed
  from assms(2) obtain n where n: "length ds = Suc n" by (cases ds) auto
  have "rev [Suc 0 ..< Suc (Suc n)] = Suc n # rev [Suc 0 ..< Suc n]" by simp
  then show ?thesis by (simp add: tw Let_def n [symmetric])
qed

lemma findall_digit_run:
  assumes "list_all is_digit ds" "ds \<noteq> []" "rest = [] \<or> \<not> is_digit (hd rest)"
  shows "findall (Rep Digit 1 None) (ds @ rest) = MStr ds # findall (Rep Digit 1 None) rest"
proof -
  from rmatch_digit_run [OF assms] obtain ms where
    m: "rmatch (Rep Digit 1 None) (ds @ rest) = ([], rest) # ms" by blast
  from assms(2) obtain x xs where ds: "ds = x # xs" by (cases ds) auto
  have "findall (Rep Digit 1 None) ((x # xs) @ rest)
      = findall_item (Rep Digit 1 None) ((x # xs) @ rest) [] rest # findall (Rep Digit 1 None) rest"
    using m ds by simp
  then show ?thesis using ds by (simp add: findall_item_def)
qed

lemma findall_skip:
  assumes "\<not> is_digit c"
  shows "findall (Rep Digit 1 None) (c # s) = findall (Rep Digit 1 None) s"
  using assms by (simp add: Let_def)

lemma findall_digits_nil: "findall (Rep Digit 1 None) [] = []"
  by (simp add: Let_def)

lemma digit_groups_iso:
  assumes "list_all is_digit ys" "ys \<noteq> []" "list_all is_digit ms" "ms \<noteq> []"
    "list_all is_digit ds" "ds \<noteq> []" "\<not> is_digit c1" "\<not> is_digit c2"
  shows "digit_groups (ys @ c1 # ms @ c2 # ds) = [ys, ms, ds]"
proof -
  have a: "findall (Rep Digit 1 None) (ds @ []) = MStr ds # findall (Rep Digit 1 None) []"
    by (rule findall_digit_run [OF assms(5,6)]) simp
  have b: "findall (Rep Digit 1 None) (ms @ c2 # ds)
      = MStr ms # findall (Rep Digit 1 None) (c2 # ds)"
    by (rule findall_digit_run [OF assms(3,4)]) (simp add: assms(8))
  have c: "findall (Rep Digit 1 None) (ys @ c1 # ms @ c2 # ds)
      = MStr ys # findall (Rep Digit 1 None) (c1 # ms @ c2 # ds)"
    by (rule findall_digit_run [OF assms(1,2)]) (simp add: assms(7))
  show ?thesis
    unfolding digit_groups_def c findall_skip [OF assms(7)] b findall_skip [OF assms(8)]
    using a by (simp add: findall_digits_nil)
qed

lemma guess_iso:
  assumes "list_all is_digit [y1, y2, y3, y4]" "list_all is_digit [m1, m2]"
    "list_all is_digit [d1, d2]"
  shows "guess_from_numbers [y1, y2, y3, y4, ch_minus, m1, m2, ch_minus, d1, d2]
     = date_new (digits_value [y1, y2, y3, y4]) (digits_value [m1, m2]) (digits_value [d1, d2])"
proof -
  have nd: "\<not> is_digit ch_minus" by (simp add: is_digit_def ch_minus_def)
  have "digit_groups ([y1, y2, y3, y4] @ ch_minus # [m1, m2] @ ch_minus # [d1, d2])
      = [[y1, y2, y3, y4], [m1, m2], [d1, d2]]"
    by (rule digit_groups_iso [OF assms(1) _ assms(2) _ assms(3) _ nd nd]) simp_all
  then have g: "digit_groups [y1, y2, y3, y4, ch_minus, m1, m2, ch_minus, d1, d2]
      = [[y1, y2, y3, y4], [m1, m2], [d1, d2]]" by simp
  have py: "py_int [y1, y2, y3, y4] = Inr (digits_value [y1, y2, y3, y4])"
    "py_int [m1, m2] = Inr (digits_value [m1, m2])"
    "py_int [d1, d2] = Inr (digits_value [d1, d2])"
    using assms by (simp_all add: py_int_digits)
  have c: "c_int (digits_value [y1, y2, y3, y4])" "c_int (digits_value [m1, m2])"
    "c_int (digits_value [d1, d2])"
    using assms by (simp_all add: digits_value_c_int)
  show ?thesis
    unfolding guess_from_numbers_def g
    using py c by (simp add: date_new_def)
qed

lemma try_formats_iso:
  assumes "list_all is_digit [y1, y2, y3, y4]" "list_all is_digit [m1, m2]"
    "list_all is_digit [d1, d2]"
  shows "try_formats [y1, y2, y3, y4, ch_minus, m1, m2, ch_minus, d1, d2] formats
     = (case strptime_date [y1, y2, y3, y4, ch_minus, m1, m2, ch_minus, d1, d2] fmt_iso of
          Inr date_obj \<Rightarrow> Some (Inr date_obj)
        | Inl e \<Rightarrow> if e = ValueError then None else Some (Inl e))"
proof -
  let ?s = "[y1, y2, y3, y4, ch_minus, m1, m2, ch_minus, d1, d2]"
  from assms have d: "is_digit y1" "is_digit y2" "is_digit y3" "is_digit y4" by simp_all
  have nd: "\<not> is_digit ch_minus" "\<not> is_digit ch_slash" "\<not> is_digit ch_dot"
    by (simp_all add: is_digit_def chars_eval)
  have ne: "ch_minus \<noteq> ch_slash" "ch_minus \<noteq> ch_dot" "ch_minus \<noteq> ch_nian"
    by (simp_all add: chars_eval)
  have f2: "strptime_date ?s [FY, FLit ch_slash, Fm, FLit ch_slash, Fd] = Inl ValueError"
    by (rule strptime_no_match) (simp add: rmatch_re_Y [OF d] rmatch_lit ne del: rmatch.simps)
  have f3: "strptime_date ?s [FY, FLit ch_dot, Fm, FLit ch_dot, Fd] = Inl ValueError"
    by (rule strptime_no_match) (simp add: rmatch_re_Y [OF d] rmatch_lit ne del: rmatch.simps)
  have f4: "strptime_date ?s [FY, FLit ch_nian, Fm, FLit ch_yue, Fd, FLit ch_ri] = Inl ValueError"
    by (rule strptime_no_match) (simp add: rmatch_re_Y [OF d] rmatch_lit ne del: rmatch.simps)
  have f5: "strptime_date ?s [Fd, FLit c, Fm, FLit c, FY] = Inl ValueError"
    if "\<not> is_digit c" for c
    by (rule strptime_no_match)
       (simp add: rmatch_re_d_fail [OF d(1-3) that] del: rmatch.simps)
  have f8: "strptime_date ?s [Fm, FLit c, Fd, FLit c, FY] = Inl ValueError"
    if "\<not> is_digit c" for c
    by (rule strptime_no_match)
       (simp add: rmatch_re_m_fail [OF d(1-3) that] del: rmatch.simps)
  show ?thesis
    by (simp add: formats_def fmt_iso_def [symmetric] f2 f3 f4 f5 f8 nd split: sum.splits)
qed

declare nat_digits.simps [simp del]

lemma parse_date_iso_digits:
  assumes "list_all is_digit [y1, y2, y3, y4]" "list_all is_digit [m1, m2]"
    "list_all is_digit [d1, d2]"
  shows "parse_date [y1, y2, y3, y4, ch_minus, m1, m2, ch_minus, d1, d2]
     = (if valid_date \<lparr>year = digits_value [y1, y2, y3, y4], month = digits_value [m1, m2],
                      day = digits_value [d1, d2]\<rparr>
        then Inr \<lparr>year = digits_value [y1, y2, y3, y4], month = digits_value [m1, m2],
                  day = digits_value [d1, d2]\<rparr>
        else Inl ValueError)"
proof -
  have c: "c_int (digits_value [y1, y2, y3, y4])" "c_int (digits_value [m1, m2])"
    "c_int (digits_value [d1, d2])"
    using assms by (simp_all add: digits_value_c_int)
  note dn = date_new_result [OF c]
  show ?thesis
    unfolding parse_date_def try_formats_iso [OF assms] strptime_iso [OF assms]
      guess_iso [OF assms] dn
    by simp
qed

lemma nat_digits_1: "n < 10 \<Longrightarrow> nat_digits n = [48 + n]"
  by (subst nat_digits.simps) simp

lemma nat_digits_step: "10 \<le> n \<Longrightarrow> nat_digits n = nat_digits (n div 10) @ [48 + n mod 10]"
  by (subst nat_digits.simps) simp

lemma nat_digits_2:
  assumes "10 \<le> n" "n < 100"
  shows "nat_digits n = [48 + n div 10, 48 + n mod 10]"
proof -
  have "n div 10 < 10" using assms by simp
  then show ?thesis using assms by (simp add: nat_digits_step nat_digits_1)
qed

lemma nat_digits_3:
  assumes "100 \<le> n" "n < 1000"
  shows "nat_digits n = [48 + n div 100, 48 + n div 10 mod 10, 48 + n mod 10]"
proof -
  have a: "10 \<le> n div 10" "n div 10 < 100" using assms by simp_all
  have "n div 10 div 10 = n div 100" by (simp add: div_mult2_eq)
  with nat_digits_2 [OF a] assms show ?thesis by (simp add: nat_digits_step)
qed

lemma nat_digits_4:
  assumes "1000 \<le> n" "n < 10000"
  shows "nat_digits n
     = [48 + n div 1000, 48 + n div 100 mod 10, 48 + n div 10 mod 10, 48 + n mod 10]"
proof -
  have a: "100 \<le> n div 10" "n div 10 < 1000" using assms by simp_all
  have "n div 10 div 100 = n div 1000" "n div 10 div 10 = n div 100"
    by (simp_all add: div_mult2_eq)
  with nat_digits_3 [OF a] assms show ?thesis by (simp add: nat_digits_step)
qed

lemma format_int_2:
  assumes "0 \<le> m" "m < 100"
  shows "format_int 2 m = [48 + nat m div 10, 48 + nat m mod 10]"
proof (cases "nat m < 10")
  case True
  with assms show ?thesis
    by (simp add: format_int_def Let_def nat_digits_1 numeral_2_eq_2)
next
  case False
  with assms have "10 \<le> nat m" "nat m < 100" by simp_all
  from nat_digits_2 [OF this] assms show ?thesis
    by (simp add: format_int_def Let_def)
qed

lemma format_int_0: "0 \<le> y \<Longrightarrow> format_int 0 y = nat_digits (nat y)"
  by (simp add: format_int_def Let_def)

lemma iso_text_digits:
  assumes "1000 \<le> y" "y \<le> 9999" "0 \<le> m" "m < 100" "0 \<le> d" "d < 100"
  shows "iso_text y m d =
     [48 + nat y div 1000, 48 + nat y div 100 mod 10, 48 + nat y div 10 mod 10, 48 + nat y mod 10,
      ch_minus, 48 + nat m div 10, 48 + nat m mod 10,
      ch_minus, 48 + nat d div 10, 48 + nat d mod 10]"
proof -
  have "1000 \<le> nat y" "nat y < 10000" using assms by simp_all
  from nat_digits_4 [OF this] assms show ?thesis
    by (simp add: iso_text_def format_int_0 format_int_2)
qed

lemma digit_char: "k < 10 \<Longrightarrow> is_digit (48 + k)"
  by (simp add: is_digit_def)

lemma digits_value_2:
  "digits_value [48 + a, 48 + b] = int a * 10 + int b"
  by (simp add: digits_value_def)

lemma digits_value_4:
  "digits_value [48 + a, 48 + b, 48 + c, 48 + d]
     = ((int a * 10 + int b) * 10 + int c) * 10 + int d"
  by (simp add: digits_value_def)

lemma two_digits:
  assumes "0 \<le> m" "m < 100"
  shows "int (nat m div 10) * 10 + int (nat m mod 10) = m"
  using assms by (simp add: zdiv_int zmod_int)

lemma four_digits:
  assumes "0 \<le> y"
  shows "((int (nat y div 1000) * 10 + int (nat y div 100 mod 10)) * 10
           + int (nat y div 10 mod 10)) * 10 + int (nat y mod 10) = y"
proof -
  define n where "n = nat y"
  have a: "n div 100 = (n div 1000) * 10 + n div 100 mod 10"
  proof -
    have "n div 100 div 10 = n div 1000" by (simp add: div_mult2_eq)
    then show ?thesis using div_mult_mod_eq [of "n div 100" 10] by simp
  qed
  have b: "n div 10 = (n div 100) * 10 + n div 10 mod 10"
  proof -
    have "n div 10 div 10 = n div 100" by (simp add: div_mult2_eq)
    then show ?thesis using div_mult_mod_eq [of "n div 10" 10] by simp
  qed
  have c: "n = (n div 10) * 10 + n mod 10" by simp
  have "((n div 1000 * 10 + n div 100 mod 10) * 10 + n div 10 mod 10) * 10 + n mod 10 = n"
    using a b c by presburger
  then have "int (((n div 1000 * 10 + n div 100 mod 10) * 10 + n div 10 mod 10) * 10 + n mod 10)
      = int n" by simp
  then show ?thesis using assms by (simp add: n_def)
qed

lemma parse_date_iso_text:
  assumes "1000 \<le> y" "y \<le> 9999" "0 \<le> m" "m < 100" "0 \<le> d" "d < 100"
  shows "parse_date (iso_text y m d)
     = (if valid_date \<lparr>year = y, month = m, day = d\<rparr>
        then Inr \<lparr>year = y, month = m, day = d\<rparr> else Inl ValueError)"
proof -
  have dy: "list_all is_digit [48 + nat y div 1000, 48 + nat y div 100 mod 10,
      48 + nat y div 10 mod 10, 48 + nat y mod 10]"
    using assms by (simp add: digit_char)
  have dm: "list_all is_digit [48 + nat m div 10, 48 + nat m mod 10]"
    using assms by (simp add: digit_char)
  have dd: "list_all is_digit [48 + nat d div 10, 48 + nat d mod 10]"
    using assms by (simp add: digit_char)
  have vy: "digits_value [48 + nat y div 1000, 48 + nat y div 100 mod 10,
      48 + nat y div 10 mod 10, 48 + nat y mod 10] = y"
    unfolding digits_value_4 using assms by (intro four_digits) simp
  have vm: "digits_value [48 + nat m div 10, 48 + nat m mod 10] = m"
    unfolding digits_value_2 by (rule two_digits [OF assms(3,4)])
  have vd: "digits_value [48 + nat d div 10, 48 + nat d mod 10] = d"
    unfolding digits_value_2 by (rule two_digits [OF assms(5,6)])
  show ?thesis
    unfolding iso_text_digits [OF assms] parse_date_iso_digits [OF dy dm dd] vy vm vd
    by (rule refl)
qed

lemma strptime_date_valid:
  assumes "strptime_date s fmt = Inr d"
  shows "valid_date d"
proof -
  from assms obtain y m dd where "date_new y m dd = Inr d"
    by (auto simp: strptime_date_def Let_def split: option.splits if_splits sum.splits prod.splits)
  then show ?thesis by (simp add: date_new_valid)
qed

lemma try_formats_valid:
  "try_formats s fmts = Some (Inr d) \<Longrightarrow> valid_date d"
proof (induction fmts)
  case Nil
  then show ?case by simp
next
  case (Cons f fmts)
  show ?case
  proof (cases "strptime_date s f")
    case (Inl e)
    with Cons show ?thesis by (simp split: if_splits)
  next
    case (Inr x)
    with Cons.prems have "x = d" by simp
    with Inr show ?thesis by (simp add: strptime_date_valid)
  qed
qed

lemma guess_from_numbers_valid:
  assumes "guess_from_numbers s = Inr d"
  shows "valid_date d"
proof -
  from assms obtain y m dd where "date_new y m dd = Inr d"
    by (auto simp: guess_from_numbers_def split: list.splits sum.splits if_splits)
  then show ?thesis by (simp add: date_new_valid)
qed

lemma parse_date_valid:
  assumes "parse_date s = Inr d"
  shows "valid_date d"
proof (cases "try_formats s formats")
  case None
  with assms show ?thesis by (simp add: parse_date_def guess_from_numbers_valid)
next
  case (Some r)
  with assms have "try_formats s formats = Some (Inr d)" by (simp add: parse_date_def)
  then show ?thesis by (rule try_formats_valid)
qed

lemma days_in_month_le_31:
  assumes "1 \<le> m" "m \<le> 12"
  shows "days_in_month y m \<le> 31"
  using month_cases [OF assms]
  by (elim disjE) (simp_all add: days_in_month_def DAYS_IN_MONTH_def)

lemma try_match_invalid_3:
  assumes "list_all is_digit ys" "ys \<noteq> []" "length ys \<le> 9"
    "list_all is_digit ms" "ms \<noteq> []" "length ms \<le> 9"
    "list_all is_digit ds" "ds \<noteq> []" "length ds \<le> 9"
    "\<not> valid_date \<lparr>year = digits_value ys, month = digits_value ms, day = digits_value ds\<rparr>"
  shows "try_match t (MTuple [ys, ms, ds]) = Inl ValueError"
  using assms
  by (simp add: try_match_def py_int_digits production_candidate_def date_new_def
        digits_value_c_int)

lemma try_match_invalid_2:
  assumes "list_all is_digit ys" "ys \<noteq> []" "length ys \<le> 9"
    "list_all is_digit ms" "ms \<noteq> []" "length ms \<le> 9"
    "\<not> valid_date \<lparr>year = digits_value ys, month = digits_value ms, day = 1\<rparr>"
  shows "try_match t (MTuple [ys, ms]) = Inl ValueError"
proof -
  have "c_int 1" by (simp add: c_int_def)
  with assms show ?thesis
    by (simp add: try_match_def py_int_digits production_candidate_def date_new_def
          digits_value_c_int)
qed

lemmas parse_eval = parse_date_def guess_from_numbers_def digit_groups_def strptime_date_def
  re_match_def found_int_def formats_def re_Y_def re_m_def re_d_def lit_def py_int_def strip_def
  is_space_def digits_value_def date_new_def c_int_def findall_item_def is_digit_def
  valid_date_def days_in_month_def is_leap_def DAYS_IN_MONTH_def MINYEAR_def MAXYEAR_def
  mk_date_def ascii_def Let_def

subsection \<open>The extractor on a text \<^verbatim>\<open>YYYY-MM-DD\<close>\<close>

text \<open>
  On ten characters, four digits, a hyphen, two digits, a hyphen, two digits, only the two
  numeric patterns match: the full-date pattern once, with the three groups, and the
  year and month pattern once, on the first seven characters.
\<close>

lemma findall_iso_num_ymd:
  assumes "list_all is_digit [y1, y2, y3, y4]" "list_all is_digit [m1, m2]"
    "list_all is_digit [d1, d2]"
  shows "findall pat_num_ymd [y1, y2, y3, y4, ch_minus, m1, m2, ch_minus, d1, d2]
     = [MTuple [[y1, y2, y3, y4], [m1, m2], [d1, d2]]]"
  using assms
  by (simp add: patterns_eval chars_eval findall_item_def is_digit_def Let_def)

lemma findall_iso_num_ym:
  assumes "list_all is_digit [y1, y2, y3, y4]" "list_all is_digit [m1, m2]"
    "list_all is_digit [d1, d2]"
  shows "findall pat_num_ym [y1, y2, y3, y4, ch_minus, m1, m2, ch_minus, d1, d2]
     = [MTuple [[y1, y2, y3, y4], [m1, m2]]]"
  using assms
  by (simp add: patterns_eval chars_eval findall_item_def is_digit_def Let_def)

lemma findall_iso_cn:
  assumes "list_all is_digit [y1, y2, y3, y4]" "list_all is_digit [m1, m2]"
    "list_all is_digit [d1, d2]"
  shows "findall pat_cn_ymd [y1, y2, y3, y4, ch_minus, m1, m2, ch_minus, d1, d2] = []"
    and "findall pat_cn_ym [y1, y2, y3, y4, ch_minus, m1, m2, ch_minus, d1, d2] = []"
  using assms
  by (simp_all add: patterns_eval chars_eval findall_item_def is_digit_def Let_def)

lemma findall_iso_labelled:
  assumes "list_all is_digit [y1, y2, y3, y4]" "list_all is_digit [m1, m2]"
    "list_all is_digit [d1, d2]"
  shows "findall pat_production_date [y1, y2, y3, y4, ch_minus, m1, m2, ch_minus, d1, d2] = []"
    and "findall pat_production [y1, y2, y3, y4, ch_minus, m1, m2, ch_minus, d1, d2] = []"
    and "findall pat_manufacture_date [y1, y2, y3, y4, ch_minus, m1, m2, ch_minus, d1, d2] = []"
    and "findall pat_shelf_life [y1, y2, y3, y4, ch_minus, m1, m2, ch_minus, d1, d2] = []"
    and "findall pat_best_before [y1, y2, y3, y4, ch_minus, m1, m2, ch_minus, d1, d2] = []"
  using assms
  by (simp_all add: patterns_eval chars_eval findall_item_def is_digit_def Let_def)

lemma try_match_digits_3:
  assumes "list_all is_digit ys" "ys \<noteq> []" "length ys \<le> 9"
    "list_all is_digit ms" "ms \<noteq> []" "length ms \<le> 9"
    "list_all is_digit ds" "ds \<noteq> []" "length ds \<le> 9"
  shows "try_match t (MTuple [ys, ms, ds]) =
     (if valid_date \<lparr>year = digits_value ys, month = digits_value ms, day = digits_value ds\<rparr>
      then Inr [\<lparr>cand_date = Some \<lparr>year = digits_value ys, month = digits_value ms,
                                     day = digits_value ds\<rparr>,
                 cand_shelf_life_months = None, cand_type = production_date, cand_text = t,
                 cand_confidence = 0.8\<rparr>]
      else Inl ValueError)"
  using assms
  by (simp add: try_match_def py_int_digits production_candidate_def date_new_def
        digits_value_c_int)

lemma try_match_digits_2:
  assumes "list_all is_digit ys" "ys \<noteq> []" "length ys \<le> 9"
    "list_all is_digit ms" "ms \<noteq> []" "length ms \<le> 9"
  shows "try_match t (MTuple [ys, ms]) =
     (if valid_date \<lparr>year = digits_value ys, month = digits_value ms, day = 1\<rparr>
      then Inr [\<lparr>cand_date = Some \<lparr>year = digits_value ys, month = digits_value ms, day = 1\<rparr>,
                 cand_shelf_life_months = None, cand_type = production_date, cand_text = t,
                 cand_confidence = 0.6\<rparr>]
      else Inl ValueError)"
proof -
  have "c_int 1" by (simp add: c_int_def)
  with assms show ?thesis
    by (simp add: try_match_def py_int_digits production_candidate_def date_new_def
          digits_value_c_int)
qed

lemma for_patterns_iso:
  assumes "list_all is_digit [y1, y2, y3, y4]" "list_all is_digit [m1, m2]"
    "list_all is_digit [d1, d2]"
  shows "for_patterns [y1, y2, y3, y4, ch_minus, m1, m2, ch_minus, d1, d2] patterns dates
     = Inr (dates
        @ (if valid_date \<lparr>year = digits_value [y1, y2, y3, y4], month = digits_value [m1, m2],
                           day = digits_value [d1, d2]\<rparr>
           then [\<lparr>cand_date = Some \<lparr>year = digits_value [y1, y2, y3, y4],
                     month = digits_value [m1, m2], day = digits_value [d1, d2]\<rparr>,
                  cand_shelf_life_months = None, cand_type = production_date,
                  cand_text = [y1, y2, y3, y4, ch_minus, m1, m2, ch_minus, d1, d2],
                  cand_confidence = 0.8\<rparr>]
           else [])
        @ (if valid_date \<lparr>year = digits_value [y1, y2, y3, y4], month = digits_value [m1, m2],
                           day = 1\<rparr>
           then [\<lparr>cand_date = Some \<lparr>year = digits_value [y1, y2, y3, y4],
                     month = digits_value [m1, m2], day = 1\<rparr>,
                  cand_shelf_life_months = None, cand_type = production_date,
                  cand_text = [y1, y2, y3, y4, ch_minus, m1, m2, ch_minus, d1, d2],
                  cand_confidence = 0.6\<rparr>]
           else []))"
proof -
  note f = findall_iso_cn [OF assms] findall_iso_num_ymd [OF assms] findall_iso_num_ym [OF assms]
    findall_iso_labelled [OF assms]
  have t3: "try_match t (MTuple [[y1, y2, y3, y4], [m1, m2], [d1, d2]]) =
     (if valid_date \<lparr>year = digits_value [y1, y2, y3, y4], month = digits_value [m1, m2],
                      day = digits_value [d1, d2]\<rparr>
      then Inr [\<lparr>cand_date = Some \<lparr>year = digits_value [y1, y2, y3, y4],
                   month = digits_value [m1, m2], day = digits_value [d1, d2]\<rparr>,
                 cand_shelf_life_months = None, cand_type = production_date, cand_text = t,
                 cand_confidence = 0.8\<rparr>]
      else Inl ValueError)" for t
    by (rule try_match_digits_3) (use assms in simp_all)
  have t2: "try_match t (MTuple [[y1, y2, y3, y4], [m1, m2]]) =
     (if valid_date \<lparr>year = digits_value [y1, y2, y3, y4], month = digits_value [m1, m2],
                      day = 1\<rparr>
      then Inr [\<lparr>cand_date = Some \<lparr>year = digits_value [y1, y2, y3, y4],
                   month = digits_value [m1, m2], day = 1\<rparr>,
                 cand_shelf_life_months = None, cand_type = production_date, cand_text = t,
                 cand_confidence = 0.6\<rparr>]
      else Inl ValueError)" for t
    by (rule try_match_digits_2) (use assms in simp_all)
  show ?thesis
    unfolding patterns_def by (simp add: f t3 t2 del: findall.simps)
qed

section \<open>Claims about calculate_expiry_date\<close>

text \<open>
  C1, as stated, fails: with \<^verbatim>\<open>shelf_life_months=1\<close> and \<^verbatim>\<open>shelf_life_days=5\<close> both given, a
  production date of 2024-01-15 expires on 2024-02-14 (30 days later), not on 2024-01-20
  (5 days later): the months branch is tested first.
\<close>
theorem shelf_life_days_not_preferred:
  "calculate_expiry_date (PyDateTime (mk_date 2024 1 15) 0) (Some 1) (Some 5)
     = PyDateTime (mk_date 2024 2 14) 0
   \<and> plus_days (PyDateTime (mk_date 2024 1 15) 0) 5 = Inr (PyDateTime (mk_date 2024 1 20) 0)"
  by (simp add: calculate_expiry_date_def calculate_expiry_try_def plus_days_def timedelta_def
        timedelta_norm_def datetime_add_def DAY_US_def MAXORDINAL_def Let_def mk_date_def
        ymd2ord_def ord2ymd_def days_before_year_def days_before_month_def is_leap_def
        DAYS_BEFORE_MONTH_def DAYS_IN_MONTH_def)

text \<open>
  C1, amended. For every production date (a datetime or a date): a non-zero
  \<^verbatim>\<open>shelf_life_months\<close> decides the result, 30 days per month, whatever \<^verbatim>\<open>shelf_life_days\<close> is;
  with \<^verbatim>\<open>shelf_life_months\<close> absent or zero, a non-zero \<^verbatim>\<open>shelf_life_days\<close> gives that many
  days; with both absent or zero the default of 180 days applies. In each case the result is
  the calendar date that many days after production when the date type can hold it, and
  \<^verbatim>\<open>None\<close> otherwise.
\<close>
theorem calculate_expiry_date_precedence:
  assumes "valid_date d" and "valid_time t"
  shows "(m \<noteq> 0 \<longrightarrow>
           calculate_expiry_date (PyDateTime d t) (Some m) shelf_life_days =
             (if in_date_range d (m * 30) then PyDateTime (ord2ymd (ymd2ord d + m * 30)) t
              else PyNone)
         \<and> calculate_expiry_date (PyDate d) (Some m) shelf_life_days =
             (if in_date_range d (m * 30) then PyDate (ord2ymd (ymd2ord d + m * 30))
              else PyNone))
       \<and> (\<not> truthy shelf_life_months \<and> n \<noteq> 0 \<longrightarrow>
           calculate_expiry_date (PyDateTime d t) shelf_life_months (Some n) =
             (if in_date_range d n then PyDateTime (ord2ymd (ymd2ord d + n)) t else PyNone)
         \<and> calculate_expiry_date (PyDate d) shelf_life_months (Some n) =
             (if in_date_range d n then PyDate (ord2ymd (ymd2ord d + n)) else PyNone))
       \<and> (\<not> truthy shelf_life_months \<and> \<not> truthy shelf_life_days \<longrightarrow>
           calculate_expiry_date (PyDateTime d t) shelf_life_months shelf_life_days =
             (if in_date_range d 180 then PyDateTime (ord2ymd (ymd2ord d + 180)) t else PyNone)
         \<and> calculate_expiry_date (PyDate d) shelf_life_months shelf_life_days =
             (if in_date_range d 180 then PyDate (ord2ymd (ymd2ord d + 180)) else PyNone))
       \<and> (in_date_range d k \<longrightarrow> days_after d k (ord2ymd (ymd2ord d + k)))"
  using expiry_of_datetime [OF assms] expiry_of_date [OF assms(1)] days_after_ord2ymd [of d k]
  by (simp add: calculate_expiry_date_def calculate_expiry_try_def)

text \<open>C1, amended, at production 2024-01-15: months 1 with days 5, months 0 with days 5,
  and neither.\<close>
theorem calculate_expiry_date_precedence_witness:
  "valid_date (mk_date 2024 1 15) \<and> valid_time 0
   \<and> calculate_expiry_date (PyDateTime (mk_date 2024 1 15) 0) (Some 1) (Some 5)
       = PyDateTime (mk_date 2024 2 14) 0
   \<and> calculate_expiry_date (PyDateTime (mk_date 2024 1 15) 0) (Some 0) (Some 5)
       = PyDateTime (mk_date 2024 1 20) 0
   \<and> calculate_expiry_date (PyDateTime (mk_date 2024 1 15) 0) None None
       = PyDateTime (mk_date 2024 7 13) 0
   \<and> days_after (mk_date 2024 1 15) 30 (mk_date 2024 2 14)"
proof -
  have v: "valid_date (mk_date 2024 1 15)" and t: "valid_time 0"
    by (simp_all add: calendar_eval)
  have r: "in_date_range (mk_date 2024 1 15) 30" "in_date_range (mk_date 2024 1 15) 5"
    "in_date_range (mk_date 2024 1 15) 180"
    by (simp_all add: calendar_eval)
  have o: "ord2ymd (ymd2ord (mk_date 2024 1 15) + 30) = mk_date 2024 2 14"
    "ord2ymd (ymd2ord (mk_date 2024 1 15) + 5) = mk_date 2024 1 20"
    "ord2ymd (ymd2ord (mk_date 2024 1 15) + 180) = mk_date 2024 7 13"
    by (simp_all add: calendar_eval)
  from calculate_expiry_date_precedence [OF v t, of 1 "Some 5" "Some 0" 5 30]
    calculate_expiry_date_precedence [OF v t, of 1 None None 5 30]
  show ?thesis using v t r o by simp
qed

text \<open>
  C3, as stated, fails: 360 days after 2024-01-15 is 2025-01-09 (2024 is a leap year), not
  2025-01-10; and one month after 9999-12-31 is no date at all, the method returns
  \<^verbatim>\<open>None\<close>.
\<close>
theorem twelve_months_is_january_9th:
  "calculate_expiry_date (PyDateTime (mk_date 2024 1 15) 0) (Some 12) None
     = PyDateTime (mk_date 2025 1 9) 0
   \<and> mk_date 2025 1 9 \<noteq> mk_date 2025 1 10
   \<and> calculate_expiry_date (PyDateTime (mk_date 9999 12 31) 0) (Some 1) None = PyNone"
  by (simp add: calculate_expiry_date_def calculate_expiry_try_def plus_days_def timedelta_def
        timedelta_norm_def datetime_add_def calendar_eval)

text \<open>
  C3, amended. For every production date and every positive \<^verbatim>\<open>shelf_life_months\<close> with no
  \<^verbatim>\<open>shelf_life_days\<close>, the result is the calendar date \<open>30 * shelf_life_months\<close> days after
  production (no calendar-month addition) when that day is not after 9999-12-31, and
  \<^verbatim>\<open>None\<close> when it is.
\<close>
theorem calculate_expiry_date_months:
  assumes "valid_date d" and "valid_time t" and "0 < m"
  shows "calculate_expiry_date (PyDateTime d t) (Some m) None =
           (if in_date_range d (30 * m) then PyDateTime (ord2ymd (ymd2ord d + 30 * m)) t
            else PyNone)
       \<and> calculate_expiry_date (PyDate d) (Some m) None =
           (if in_date_range d (30 * m) then PyDate (ord2ymd (ymd2ord d + 30 * m)) else PyNone)
       \<and> (in_date_range d (30 * m) \<longrightarrow> days_after d (30 * m) (ord2ymd (ymd2ord d + 30 * m)))"
  using expiry_of_datetime [OF assms(1,2), of "m * 30"] expiry_of_date [OF assms(1), of "m * 30"]
    days_after_ord2ymd [of d "30 * m"] assms(3)
  by (simp add: calculate_expiry_date_def calculate_expiry_try_def mult.commute)

text \<open>C3, amended, at production 2024-01-15 and 12 months: the expiry date is 2025-01-09.\<close>
theorem calculate_expiry_date_months_witness:
  "valid_date (mk_date 2024 1 15) \<and> valid_time 0 \<and> (0::int) < 12
   \<and> in_date_range (mk_date 2024 1 15) (30 * 12)
   \<and> calculate_expiry_date (PyDateTime (mk_date 2024 1 15) 0) (Some 12) None
       = PyDateTime (mk_date 2025 1 9) 0
   \<and> days_after (mk_date 2024 1 15) (30 * 12) (mk_date 2025 1 9)"
proof -
  have v: "valid_date (mk_date 2024 1 15)" and t: "valid_time 0"
    by (simp_all add: calendar_eval)
  have r: "in_date_range (mk_date 2024 1 15) (30 * 12)"
    by (simp add: calendar_eval)
  have o: "ord2ymd (ymd2ord (mk_date 2024 1 15) + 30 * 12) = mk_date 2025 1 9"
    by (simp add: calendar_eval)
  from calculate_expiry_date_months [OF v t, of 12]
  show ?thesis using v t r o by simp
qed

text \<open>
  C9, as stated for every production date, fails at the end of the calendar: for production
  9999-12-31 (or any day after 9999-07-04) the zero arguments select the 180-day default,
  the addition overflows and the method returns \<^verbatim>\<open>None\<close>.
\<close>
theorem zero_shelf_life_overflow:
  "calculate_expiry_date (PyDateTime (mk_date 9999 12 31) 0) (Some 0) (Some 0) = PyNone
   \<and> calculate_expiry_date (PyDate (mk_date 9999 7 5)) (Some 0) (Some 0) = PyNone
   \<and> valid_date (mk_date 9999 12 31) \<and> valid_date (mk_date 9999 7 5)"
  by (simp add: calculate_expiry_date_def calculate_expiry_try_def plus_days_def timedelta_def
        timedelta_norm_def datetime_add_def date_add_def calendar_eval)

text \<open>
  C9, amended. For every production date, a \<^verbatim>\<open>shelf_life_months\<close> or \<^verbatim>\<open>shelf_life_days\<close> of 0
  is treated as an absent one; with both 0 the result is the date 180 days after production
  when that day is not after 9999-12-31 and \<^verbatim>\<open>None\<close> when it is; it is never the production
  date itself.
\<close>
theorem calculate_expiry_date_zero_is_absent:
  assumes "valid_date d" and "valid_time t"
  shows "calculate_expiry_date (PyDateTime d t) (Some 0) shelf_life_days
           = calculate_expiry_date (PyDateTime d t) None shelf_life_days
       \<and> calculate_expiry_date (PyDateTime d t) shelf_life_months (Some 0)
           = calculate_expiry_date (PyDateTime d t) shelf_life_months None
       \<and> calculate_expiry_date (PyDateTime d t) (Some 0) (Some 0) =
           (if in_date_range d 180 then PyDateTime (ord2ymd (ymd2ord d + 180)) t else PyNone)
       \<and> calculate_expiry_date (PyDate d) (Some 0) (Some 0) =
           (if in_date_range d 180 then PyDate (ord2ymd (ymd2ord d + 180)) else PyNone)
       \<and> (in_date_range d 180 \<longrightarrow> days_after d 180 (ord2ymd (ymd2ord d + 180)))
       \<and> calculate_expiry_date (PyDateTime d t) (Some 0) (Some 0) \<noteq> PyDateTime d t
       \<and> calculate_expiry_date (PyDate d) (Some 0) (Some 0) \<noteq> PyDate d"
proof -
  have ne: "ord2ymd (ymd2ord d + 180) \<noteq> d" if "in_date_range d 180"
  proof
    assume "ord2ymd (ymd2ord d + 180) = d"
    with days_after_ord2ymd [OF that] show False by (simp add: days_after_def)
  qed
  show ?thesis
    using expiry_of_datetime [OF assms, of 180] expiry_of_date [OF assms(1), of 180]
      days_after_ord2ymd [of d 180] ne
    by (simp add: calculate_expiry_date_def calculate_expiry_try_def)
qed

text \<open>C9, amended, at production 2024-01-15: both arguments 0 give 2024-07-13.\<close>
theorem calculate_expiry_date_zero_is_absent_witness:
  "valid_date (mk_date 2024 1 15) \<and> valid_time 0 \<and> in_date_range (mk_date 2024 1 15) 180
   \<and> calculate_expiry_date (PyDateTime (mk_date 2024 1 15) 0) (Some 0) (Some 0)
       = PyDateTime (mk_date 2024 7 13) 0
   \<and> days_after (mk_date 2024 1 15) 180 (mk_date 2024 7 13)"
proof -
  have v: "valid_date (mk_date 2024 1 15)" and t: "valid_time 0"
    by (simp_all add: calendar_eval)
  have r: "in_date_range (mk_date 2024 1 15) 180"
    by (simp add: calendar_eval)
  have o: "ord2ymd (ymd2ord (mk_date 2024 1 15) + 180) = mk_date 2024 7 13"
    by (simp add: calendar_eval)
  from calculate_expiry_date_zero_is_absent [OF v t, of None None]
  show ?thesis using v t r o by simp
qed

section \<open>Claims about get_days_remaining\<close>

text \<open>
  C4. For every expiry date (a date or a datetime) and every reference date, the one the
  clock shows, \<^verbatim>\<open>get_days_remaining\<close> returns the signed number of whole days from the
  reference date to the expiry date: negative exactly when the expiry date is earlier, zero
  exactly when the two are the same day, and \<open>k\<close> when the expiry date is the calendar date
  \<open>k\<close> days after the reference date.
\<close>
theorem get_days_remaining_signed_difference:
  assumes "valid_date e" and "valid_date (now_date w)"
  shows "fst (get_days_remaining w (PyDate e)) = PyInt (ymd2ord e - ymd2ord (now_date w))
       \<and> fst (get_days_remaining w (PyDateTime e s)) = PyInt (ymd2ord e - ymd2ord (now_date w))
       \<and> (ymd2ord e - ymd2ord (now_date w) < 0) = date_less e (now_date w)
       \<and> (ymd2ord e - ymd2ord (now_date w) = 0) = (e = now_date w)
       \<and> (0 < ymd2ord e - ymd2ord (now_date w)) = date_less (now_date w) e
       \<and> (days_after (now_date w) k e \<longrightarrow> fst (get_days_remaining w (PyDate e)) = PyInt k)"
  using days_remaining_try_date(1) [OF assms] days_remaining_try_date(2) [OF assms, of s]
    ymd2ord_less_iff [of e "now_date w"] ymd2ord_less_iff [of "now_date w" e]
    ymd2ord_eq_iff [of e "now_date w"] valid_date_md [OF assms(1)] valid_date_md [OF assms(2)]
  by (simp add: get_days_remaining_def days_after_def)

text \<open>C4 at expiry 2024-01-01 and reference date 2024-01-05: the result is -4.\<close>
theorem get_days_remaining_signed_difference_witness:
  "valid_date (mk_date 2024 1 1) \<and> valid_date (mk_date 2024 1 5)
   \<and> fst (get_days_remaining \<lparr>now_date = mk_date 2024 1 5, now_us = 0, error_log = []\<rparr>
        (PyDate (mk_date 2024 1 1))) = PyInt (- 4)
   \<and> date_less (mk_date 2024 1 1) (mk_date 2024 1 5)"
proof -
  have v: "valid_date (mk_date 2024 1 1)"
    "valid_date (now_date \<lparr>now_date = mk_date 2024 1 5, now_us = 0, error_log = []\<rparr>)"
    by (simp_all add: calendar_eval)
  have o: "ymd2ord (mk_date 2024 1 1) - ymd2ord (mk_date 2024 1 5) = - 4"
    by (simp add: calendar_eval)
  from get_days_remaining_signed_difference [OF v, where s = 0 and k = 0]
  show ?thesis using v o by simp
qed

text \<open>
  C5, as stated, fails: the method takes the expiry date only and reads the reference date
  from the clock, so the same argument gives 5 on 2024-01-05 and 4 on 2024-01-06; and a
  failing call appends a line to the error log.
\<close>
theorem get_days_remaining_depends_on_clock:
  "fst (get_days_remaining \<lparr>now_date = mk_date 2024 1 5, now_us = 0, error_log = []\<rparr>
         (PyDate (mk_date 2024 1 10))) = PyInt 5
   \<and> fst (get_days_remaining \<lparr>now_date = mk_date 2024 1 6, now_us = 0, error_log = []\<rparr>
         (PyDate (mk_date 2024 1 10))) = PyInt 4
   \<and> snd (get_days_remaining \<lparr>now_date = mk_date 2024 1 5, now_us = 0, error_log = []\<rparr> PyNone)
       = \<lparr>now_date = mk_date 2024 1 5, now_us = 0, error_log = [TypeError]\<rparr>"
  by (simp add: get_days_remaining_def days_remaining_try_def timedelta_def timedelta_norm_def
        calendar_eval)

text \<open>
  C5, amended. The result of \<^verbatim>\<open>get_days_remaining\<close> is a function of its argument and of the
  date the clock shows: two calls with the same argument on the same clock date return the
  same value, whatever the time of day and the log. The clock is never changed; the only
  effect is one line added to the error log when the computation fails, and none for a date
  or datetime argument.
\<close>
theorem get_days_remaining_reads_clock_date:
  "(now_date w1 = now_date w2 \<longrightarrow>
      fst (get_days_remaining w1 v) = fst (get_days_remaining w2 v))
   \<and> now_date (snd (get_days_remaining w v)) = now_date w
   \<and> now_us (snd (get_days_remaining w v)) = now_us w
   \<and> (\<forall>r. days_remaining_try w v = Inr r \<longrightarrow> snd (get_days_remaining w v) = w)
   \<and> (\<forall>e. days_remaining_try w v = Inl e \<longrightarrow>
         snd (get_days_remaining w v) = w\<lparr>error_log := error_log w @ [e]\<rparr>)
   \<and> (valid_date d \<and> valid_date (now_date w) \<longrightarrow>
         snd (get_days_remaining w (PyDate d)) = w
       \<and> snd (get_days_remaining w (PyDateTime d s)) = w)"
proof -
  have a: "fst (get_days_remaining w1 v) = fst (get_days_remaining w2 v)"
    if "now_date w1 = now_date w2"
  proof -
    from that have "days_remaining_try w1 v = days_remaining_try w2 v"
      by (simp add: days_remaining_try_def)
    then show ?thesis by (simp add: get_days_remaining_def split: sum.splits)
  qed
  have b: "now_date (snd (get_days_remaining w v)) = now_date w"
    "now_us (snd (get_days_remaining w v)) = now_us w"
    by (simp_all add: get_days_remaining_def split: sum.splits)
  have c: "snd (get_days_remaining w (PyDate d)) = w
       \<and> snd (get_days_remaining w (PyDateTime d s)) = w"
    if "valid_date d" "valid_date (now_date w)"
    using days_remaining_try_date(1) [OF that] days_remaining_try_date(2) [OF that, of s]
    by (simp add: get_days_remaining_def)
  show ?thesis using a b c by (simp add: get_days_remaining_def)
qed

text \<open>C5, amended, for two worlds that share the clock date 2024-01-05 and differ in the
  time of day and in the log.\<close>
theorem get_days_remaining_reads_clock_date_witness:
  "now_date \<lparr>now_date = mk_date 2024 1 5, now_us = 0, error_log = []\<rparr>
     = now_date \<lparr>now_date = mk_date 2024 1 5, now_us = 777, error_log = [TypeError]\<rparr>
   \<and> fst (get_days_remaining \<lparr>now_date = mk_date 2024 1 5, now_us = 0, error_log = []\<rparr>
          (PyDate (mk_date 2024 1 10)))
     = fst (get_days_remaining
          \<lparr>now_date = mk_date 2024 1 5, now_us = 777, error_log = [TypeError]\<rparr>
          (PyDate (mk_date 2024 1 10)))
   \<and> valid_date (mk_date 2024 1 10) \<and> valid_date (mk_date 2024 1 5)
   \<and> snd (get_days_remaining \<lparr>now_date = mk_date 2024 1 5, now_us = 0, error_log = []\<rparr>
          (PyDate (mk_date 2024 1 10)))
     = \<lparr>now_date = mk_date 2024 1 5, now_us = 0, error_log = []\<rparr>"
proof -
  have v: "valid_date (mk_date 2024 1 10)" "valid_date (mk_date 2024 1 5)"
    by (simp_all add: calendar_eval)
  from get_days_remaining_reads_clock_date
    [where ?w1.0 = "\<lparr>now_date = mk_date 2024 1 5, now_us = 0, error_log = []\<rparr>"
       and ?w2.0 = "\<lparr>now_date = mk_date 2024 1 5, now_us = 777, error_log = [TypeError]\<rparr>"
       and v = "PyDate (mk_date 2024 1 10)"
       and w = "\<lparr>now_date = mk_date 2024 1 5, now_us = 0, error_log = []\<rparr>"
       and d = "mk_date 2024 1 10" and s = 0]
  show ?thesis using v by simp
qed

text \<open>
  C10. \<^verbatim>\<open>get_days_remaining\<close> never propagates an exception: for every argument in every world
  it returns an integer; whenever the computation inside the \<^verbatim>\<open>try\<close> raises (as it does for
  \<^verbatim>\<open>None\<close>, an integer or a string) that integer is 0, the value also returned for a date
  that expires today.
\<close>
theorem get_days_remaining_never_raises:
  "(\<exists>n. fst (get_days_remaining w v) = PyInt n)
   \<and> (\<forall>e. days_remaining_try w v = Inl e \<longrightarrow> fst (get_days_remaining w v) = PyInt 0)
   \<and> days_remaining_try w PyNone = Inl TypeError
   \<and> days_remaining_try w (PyInt i) = Inl TypeError
   \<and> days_remaining_try w (PyStr s) = Inl TypeError
   \<and> fst (get_days_remaining w PyNone) = PyInt 0
   \<and> fst (get_days_remaining w (PyDate (now_date w))) = PyInt 0"
proof -
  have a: "\<exists>n. fst (get_days_remaining w v) = PyInt n"
  proof (cases "days_remaining_try w v")
    case (Inl e)
    then show ?thesis by (simp add: get_days_remaining_def)
  next
    case (Inr r)
    with days_remaining_try_int [OF Inr] show ?thesis by (auto simp: get_days_remaining_def)
  qed
  have b: "days_remaining_try w (PyDate (now_date w)) = Inr (PyInt 0)"
    by (simp add: days_remaining_try_def timedelta_def timedelta_norm_def DAY_US_def)
  show ?thesis using a b
    by (simp add: get_days_remaining_def days_remaining_try_def)
qed

text \<open>C10 at a string argument: the subtraction raises \<^verbatim>\<open>TypeError\<close> and 0 is returned.\<close>
theorem get_days_remaining_never_raises_witness:
  "days_remaining_try \<lparr>now_date = mk_date 2024 1 5, now_us = 0, error_log = []\<rparr> (PyStr [])
     = Inl TypeError
   \<and> fst (get_days_remaining \<lparr>now_date = mk_date 2024 1 5, now_us = 0, error_log = []\<rparr>
        (PyStr [])) = PyInt 0"
  using get_days_remaining_never_raises
    [where w = "\<lparr>now_date = mk_date 2024 1 5, now_us = 0, error_log = []\<rparr>"
       and v = "PyStr []" and s = "[]"]
  by simp

section \<open>Claims about the candidates and their selection\<close>

text \<open>
  C8, as stated, fails: on the fragment \<^verbatim>\<open>{sheng}{chan}{ri}{qi}:2024-01-15\<close> the labelled pattern
  \<^verbatim>\<open>{sheng}{chan}{ri}{qi}[{wide colon}:]...\<close> and the bare numeric pattern both give a candidate of confidence 0.8,
  so the labelled one is not strictly higher; and the candidate of the labelled shelf-life
  pattern \<^verbatim>\<open>{bao}{zhi_quality}{qi}[{wide colon}:](\d{1,2})[{ge}]*{yue}\<close> has confidence 0.7, below the bare numeric 0.8.
  The confidence depends on the number of fields matched only.
\<close>
theorem labelled_patterns_not_more_confident:
  "pattern_candidates ([ch_sheng, ch_chan, ch_ri, ch_qi, ch_colon] @ ascii ''2024-01-15'')
       pat_production_date
     = Inr [\<lparr>cand_date = Some (mk_date 2024 1 15), cand_shelf_life_months = None,
             cand_type = production_date,
             cand_text = [ch_sheng, ch_chan, ch_ri, ch_qi, ch_colon] @ ascii ''2024-01-15'',
             cand_confidence = 0.8\<rparr>]
   \<and> pattern_candidates ([ch_sheng, ch_chan, ch_ri, ch_qi, ch_colon] @ ascii ''2024-01-15'')
       pat_num_ymd
     = Inr [\<lparr>cand_date = Some (mk_date 2024 1 15), cand_shelf_life_months = None,
             cand_type = production_date,
             cand_text = [ch_sheng, ch_chan, ch_ri, ch_qi, ch_colon] @ ascii ''2024-01-15'',
             cand_confidence = 0.8\<rparr>]
   \<and> pattern_candidates ([ch_bao, ch_zhi_quality, ch_qi, ch_colon, 54, ch_ge, ch_yue])
       pat_shelf_life
     = Inr [\<lparr>cand_date = None, cand_shelf_life_months = Some 6, cand_type = shelf_life,
             cand_text = [ch_bao, ch_zhi_quality, ch_qi, ch_colon, 54, ch_ge, ch_yue],
             cand_confidence = 0.7\<rparr>]"
  by (simp add: extract_eval patterns_eval chars_eval)

text \<open>
  C8, amended. Every candidate from a full-date pattern (three fields), labelled or bare,
  has confidence 0.8; every candidate from the month-count pattern has a confidence strictly
  below 0.8; and every candidate's confidence lies in [0,1].
\<close>
theorem full_date_confidence_above_month_count:
  "(\<forall>p \<in> set full_date_patterns.
      \<exists>cs. pattern_candidates t p = Inr cs \<and> list_all (\<lambda>c. cand_confidence c = 0.8) cs)
   \<and> (\<exists>cs. pattern_candidates t pat_shelf_life = Inr cs
         \<and> list_all (\<lambda>c. cand_confidence c < 0.8) cs)
   \<and> (\<exists>dates. parse_date_patterns texts = Inr dates
         \<and> list_all (\<lambda>c. 0 \<le> cand_confidence c \<and> cand_confidence c \<le> 1) dates)"
proof (intro conjI ballI)
  fix p assume "p \<in> set full_date_patterns"
  with full_date_patterns_shape have p: "plain p" "ngroups p = 3" "group_bound 9 p" by auto
  show "\<exists>cs. pattern_candidates t p = Inr cs \<and> list_all (\<lambda>c. cand_confidence c = 0.8) cs"
  proof (rule pattern_candidates_confidence [OF p(3)])
    show "\<forall>m \<in> set (findall p t). length (elems m) = 3 \<longrightarrow> (0.8::real) = 0.8" by simp
    show "\<forall>m \<in> set (findall p t). length (elems m) = 2 \<longrightarrow> (0.6::real) = 0.8"
      using findall_tuple [OF p(1)] p(2) by auto
    show "\<forall>m \<in> set (findall p t). length (elems m) = 1 \<longrightarrow> (0.7::real) = 0.8"
      using findall_tuple [OF p(1)] p(2) by auto
  qed
next
  note s = shelf_life_pattern_shape
  from s have gb: "group_bound 9 pat_shelf_life" by simp
  show "\<exists>cs. pattern_candidates t pat_shelf_life = Inr cs
         \<and> list_all (\<lambda>c. cand_confidence c < 0.8) cs"
  proof (rule pattern_candidates_confidence [OF gb])
    have le: "length (elems m) \<le> 2" if "m \<in> set (findall pat_shelf_life t)" for m
      using findall_single [OF _ _ _ that, of 2] s by simp
    show "\<forall>m \<in> set (findall pat_shelf_life t). length (elems m) = 3 \<longrightarrow> (0.8::real) < 0.8"
      using le by fastforce
    show "\<forall>m \<in> set (findall pat_shelf_life t). length (elems m) = 2 \<longrightarrow> (0.6::real) < 0.8"
      by simp
    show "\<forall>m \<in> set (findall pat_shelf_life t). length (elems m) = 1 \<longrightarrow> (0.7::real) < 0.8"
      by simp
  qed
next
  from parse_date_patterns_sound [of texts] obtain dates where
    d: "parse_date_patterns texts = Inr dates"
    "list_all (\<lambda>c. \<exists>t \<in> set texts. sound_candidate t c) dates" by blast
  from d(2) have "list_all (\<lambda>c. 0 \<le> cand_confidence c \<and> cand_confidence c \<le> 1) dates"
    by (auto simp: list_all_iff sound_candidate_def)
  with d(1) show "\<exists>dates. parse_date_patterns texts = Inr dates
         \<and> list_all (\<lambda>c. 0 \<le> cand_confidence c \<and> cand_confidence c \<le> 1) dates" by blast
qed

text \<open>C8, amended, at the fragment \<^verbatim>\<open>2024-01-15\<close> for a labelled and a bare pattern.\<close>
theorem full_date_confidence_above_month_count_witness:
  "pat_production_date \<in> set full_date_patterns \<and> pat_num_ymd \<in> set full_date_patterns
   \<and> (\<exists>cs. pattern_candidates (ascii ''2024-01-15'') pat_num_ymd = Inr cs
         \<and> list_all (\<lambda>c. cand_confidence c = 0.8) cs)
   \<and> (\<exists>cs. pattern_candidates (ascii ''2024-01-15'') pat_production_date = Inr cs
         \<and> list_all (\<lambda>c. cand_confidence c = 0.8) cs)"
  using full_date_confidence_above_month_count [of "ascii ''2024-01-15''" "[]"]
  by (simp add: full_date_patterns_def)

text \<open>
  A month count of two digits is not returned as a shelf life. The month-count pattern has
  one group, so \<^verbatim>\<open>re.findall\<close> returns the group as a string, and \<^verbatim>\<open>len(match) == 2\<close> sends
  \<^verbatim>\<open>12\<close> to the year and month branch: year 1, month 2, confidence 0.6.
\<close>

lemma two_digit_month_count_read_as_year_month:
  "parse_date_patterns [[ch_bao, ch_zhi_quality, ch_qi, ch_wide_colon, 49, 50, ch_ge, ch_yue]]
     = Inr [\<lparr>cand_date = Some (mk_date 1 2 1), cand_shelf_life_months = None,
             cand_type = production_date,
             cand_text = [ch_bao, ch_zhi_quality, ch_qi, ch_wide_colon, 49, 50, ch_ge, ch_yue],
             cand_confidence = 0.6\<rparr>]"
  by (simp add: extract_eval patterns_eval chars_eval)

text \<open>
  C2, as stated, fails: the texts \<^verbatim>\<open>2024-01-15\<close> (10 characters) and \<^verbatim>\<open>2024-01-16 exp\<close>
  (14 characters) give two production-date candidates of confidence 0.8 each, and the one
  selected is the first, from the text of length 10.
\<close>
theorem first_of_equal_confidence_selected:
  "parse_date_patterns [ascii ''2024-01-15'', ascii ''2024-01-16 exp'']
     = Inr [\<lparr>cand_date = Some (mk_date 2024 1 15), cand_shelf_life_months = None,
             cand_type = production_date, cand_text = ascii ''2024-01-15'',
             cand_confidence = 0.8\<rparr>,
            \<lparr>cand_date = Some (mk_date 2024 1 1), cand_shelf_life_months = None,
             cand_type = production_date, cand_text = ascii ''2024-01-15'',
             cand_confidence = 0.6\<rparr>,
            \<lparr>cand_date = Some (mk_date 2024 1 16), cand_shelf_life_months = None,
             cand_type = production_date, cand_text = ascii ''2024-01-16 exp'',
             cand_confidence = 0.8\<rparr>,
            \<lparr>cand_date = Some (mk_date 2024 1 1), cand_shelf_life_months = None,
             cand_type = production_date, cand_text = ascii ''2024-01-16 exp'',
             cand_confidence = 0.6\<rparr>]
   \<and> recognize_date [ascii ''2024-01-15'', ascii ''2024-01-16 exp'']
     = Some \<lparr>cand_date = Some (mk_date 2024 1 15), cand_shelf_life_months = None,
             cand_type = production_date, cand_text = ascii ''2024-01-15'',
             cand_confidence = 0.8\<rparr>
   \<and> length (ascii ''2024-01-15'') = 10 \<and> length (ascii ''2024-01-16 exp'') = 14"
proof -
  have p: "parse_date_patterns [ascii ''2024-01-15'', ascii ''2024-01-16 exp'']
     = Inr [\<lparr>cand_date = Some (mk_date 2024 1 15), cand_shelf_life_months = None,
             cand_type = production_date, cand_text = ascii ''2024-01-15'',
             cand_confidence = 0.8\<rparr>,
            \<lparr>cand_date = Some (mk_date 2024 1 1), cand_shelf_life_months = None,
             cand_type = production_date, cand_text = ascii ''2024-01-15'',
             cand_confidence = 0.6\<rparr>,
            \<lparr>cand_date = Some (mk_date 2024 1 16), cand_shelf_life_months = None,
             cand_type = production_date, cand_text = ascii ''2024-01-16 exp'',
             cand_confidence = 0.8\<rparr>,
            \<lparr>cand_date = Some (mk_date 2024 1 1), cand_shelf_life_months = None,
             cand_type = production_date, cand_text = ascii ''2024-01-16 exp'',
             cand_confidence = 0.6\<rparr>]"
    by (simp add: extract_eval patterns_eval chars_eval)
  show ?thesis
    unfolding recognize_date_def p
    by (simp add: py_max_def ascii_def)
qed

text \<open>
  C2, amended. The candidate selected has the highest confidence, and among the candidates
  of exactly that confidence it is the one found first (earlier text, then earlier
  pattern), whatever the lengths of the texts: every candidate before it in the list has a
  strictly lower confidence.
\<close>
theorem recognize_date_first_maximum:
  assumes "recognize_date texts = Some best"
  shows "\<exists>dates i. parse_date_patterns texts = Inr dates \<and> i < length dates \<and> best = dates ! i
     \<and> (\<forall>j < length dates. cand_confidence (dates ! j) \<le> cand_confidence best)
     \<and> (\<forall>j < i. cand_confidence (dates ! j) < cand_confidence best)"
proof -
  from assms obtain dates where d: "parse_date_patterns texts = Inr dates" "dates \<noteq> []"
    "py_max cand_confidence dates = Inr best"
    by (auto simp: recognize_date_def split: if_splits sum.splits)
  from d(2) obtain b xs where bx: "dates = b # xs" by (cases dates) auto
  with d(3) have "best = max_from cand_confidence b xs" by (simp add: py_max_def)
  with max_from_first [of b xs cand_confidence] bx d(1) show ?thesis by auto
qed

text \<open>C2, amended, at the same two texts: the candidate selected is the first of the
  list.\<close>
theorem recognize_date_first_maximum_witness:
  "recognize_date [ascii ''2024-01-15'', ascii ''2024-01-16 exp'']
     = Some \<lparr>cand_date = Some (mk_date 2024 1 15), cand_shelf_life_months = None,
             cand_type = production_date, cand_text = ascii ''2024-01-15'',
             cand_confidence = 0.8\<rparr>
   \<and> (\<exists>dates i. parse_date_patterns [ascii ''2024-01-15'', ascii ''2024-01-16 exp''] = Inr dates
         \<and> i < length dates
         \<and> dates ! i = \<lparr>cand_date = Some (mk_date 2024 1 15), cand_shelf_life_months = None,
             cand_type = production_date, cand_text = ascii ''2024-01-15'',
             cand_confidence = 0.8\<rparr>
         \<and> (\<forall>j < i. cand_confidence (dates ! j) < 0.8))"
proof -
  have r: "recognize_date [ascii ''2024-01-15'', ascii ''2024-01-16 exp'']
     = Some \<lparr>cand_date = Some (mk_date 2024 1 15), cand_shelf_life_months = None,
             cand_type = production_date, cand_text = ascii ''2024-01-15'',
             cand_confidence = 0.8\<rparr>"
    by (simp add: recognize_date_def py_max_def extract_eval patterns_eval chars_eval)
  from recognize_date_first_maximum [OF r] r show ?thesis by auto
qed

section \<open>Claims about invalid dates and the typed-date parser\<close>

text \<open>
  C6, as stated, fails for the extractor: a text whose day does not exist still gives a
  candidate. On \<^verbatim>\<open>2024-02-30\<close> the full-date pattern matches and its match is dropped, but the
  year and month pattern \<^verbatim>\<open>(\\d{4})[-./](\\d{1,2})\<close> matches \<^verbatim>\<open>2024-02\<close> in the same text, so
  \<^verbatim>\<open>parse_date_patterns\<close> returns the production date 2024-02-01 at confidence 0.6 and
  \<^verbatim>\<open>recognize_date\<close> selects it; likewise \<^verbatim>\<open>2023-04-31\<close> gives 2023-04-01.
\<close>
theorem invalid_day_leaves_year_month_candidate:
  "\<not> valid_date (mk_date 2024 2 30) \<and> \<not> valid_date (mk_date 2023 4 31)
   \<and> parse_date_patterns [ascii ''2024-02-30'']
       = Inr [\<lparr>cand_date = Some (mk_date 2024 2 1), cand_shelf_life_months = None,
               cand_type = production_date, cand_text = ascii ''2024-02-30'',
               cand_confidence = 0.6\<rparr>]
   \<and> recognize_date [ascii ''2024-02-30'']
       = Some \<lparr>cand_date = Some (mk_date 2024 2 1), cand_shelf_life_months = None,
               cand_type = production_date, cand_text = ascii ''2024-02-30'',
               cand_confidence = 0.6\<rparr>
   \<and> parse_date_patterns [ascii ''2023-04-31'']
       = Inr [\<lparr>cand_date = Some (mk_date 2023 4 1), cand_shelf_life_months = None,
               cand_type = production_date, cand_text = ascii ''2023-04-31'',
               cand_confidence = 0.6\<rparr>]"
proof -
  have v: "\<not> valid_date (mk_date 2024 2 30)" "\<not> valid_date (mk_date 2023 4 31)"
    by (simp_all add: extract_eval)
  have a: "parse_date_patterns [ascii ''2024-02-30'']
       = Inr [\<lparr>cand_date = Some (mk_date 2024 2 1), cand_shelf_life_months = None,
               cand_type = production_date, cand_text = ascii ''2024-02-30'',
               cand_confidence = 0.6\<rparr>]"
    by (simp add: extract_eval patterns_eval chars_eval)
  have b: "parse_date_patterns [ascii ''2023-04-31'']
       = Inr [\<lparr>cand_date = Some (mk_date 2023 4 1), cand_shelf_life_months = None,
               cand_type = production_date, cand_text = ascii ''2023-04-31'',
               cand_confidence = 0.6\<rparr>]"
    by (simp add: extract_eval patterns_eval chars_eval)
  have c: "recognize_date [ascii ''2024-02-30'']
       = Some \<lparr>cand_date = Some (mk_date 2024 2 1), cand_shelf_life_months = None,
               cand_type = production_date, cand_text = ascii ''2024-02-30'',
               cand_confidence = 0.6\<rparr>"
    unfolding recognize_date_def a by (simp add: py_max_def ascii_def)
  from v a b c show ?thesis by (simp only: simp_thms)
qed

text \<open>
  C6, amended. Let a text \<^verbatim>\<open>YYYY-MM-DD\<close> (four digits, two, two, hyphens between) be no
  calendar date, the month outside 1..12 or the day outside the month, leap years counted.
  Then the extractor, run over all nine patterns, drops the full-date match and adds exactly
  \<open>year_month_candidates\<close>: the first day of the month \<^verbatim>\<open>YYYY-MM-01\<close> at confidence 0.6 when
  year and month are valid, nothing otherwise; \<^verbatim>\<open>parse_date_patterns\<close> on that text alone
  returns just this, \<^verbatim>\<open>recognize_date\<close> selects it (or has nothing to select), and the
  typed-date parser fails with \<^verbatim>\<open>ValueError\<close>. For any single match, of whatever pattern and
  in whatever text: three groups (a year of four digits, a month and a day of one or two)
  that are no calendar date give no candidate, the \<^verbatim>\<open>ValueError\<close> of the constructor is
  caught and the loop goes on with the candidates unchanged; the same for two groups whose
  month is invalid. No exception leaves \<^verbatim>\<open>parse_date_patterns\<close>, on any texts, and every date
  it returns is a calendar date; whatever the typed-date parser returns for any text is a
  calendar date.
\<close>
theorem invalid_date_match_dropped:
  "(list_all is_digit [y1, y2, y3, y4] \<and> list_all is_digit [m1, m2]
      \<and> list_all is_digit [d1, d2]
      \<and> \<not> valid_date \<lparr>year = digits_value [y1, y2, y3, y4], month = digits_value [m1, m2],
                       day = digits_value [d1, d2]\<rparr>
    \<longrightarrow> for_patterns [y1, y2, y3, y4, ch_minus, m1, m2, ch_minus, d1, d2] patterns dates
        = Inr (dates @ year_month_candidates [y1, y2, y3, y4, ch_minus, m1, m2, ch_minus, d1, d2]
                         (digits_value [y1, y2, y3, y4]) (digits_value [m1, m2]))
      \<and> parse_date_patterns [[y1, y2, y3, y4, ch_minus, m1, m2, ch_minus, d1, d2]]
        = Inr (year_month_candidates [y1, y2, y3, y4, ch_minus, m1, m2, ch_minus, d1, d2]
                 (digits_value [y1, y2, y3, y4]) (digits_value [m1, m2]))
      \<and> recognize_date [[y1, y2, y3, y4, ch_minus, m1, m2, ch_minus, d1, d2]]
        = (case year_month_candidates [y1, y2, y3, y4, ch_minus, m1, m2, ch_minus, d1, d2]
                  (digits_value [y1, y2, y3, y4]) (digits_value [m1, m2]) of
             [] \<Rightarrow> None | c # _ \<Rightarrow> Some c)
      \<and> parse_date [y1, y2, y3, y4, ch_minus, m1, m2, ch_minus, d1, d2] = Inl ValueError)
   \<and> (list_all is_digit ys \<and> length ys = 4
      \<and> list_all is_digit ms \<and> 1 \<le> length ms \<and> length ms \<le> 2
      \<and> list_all is_digit ds \<and> 1 \<le> length ds \<and> length ds \<le> 2
      \<and> \<not> valid_date \<lparr>year = digits_value ys, month = digits_value ms, day = digits_value ds\<rparr>
    \<longrightarrow> try_match fragment (MTuple [ys, ms, ds]) = Inl ValueError
      \<and> for_matches fragment (MTuple [ys, ms, ds] # matches) dates
          = for_matches fragment matches dates)
   \<and> (list_all is_digit ys \<and> length ys = 4
      \<and> list_all is_digit ms \<and> 1 \<le> length ms \<and> length ms \<le> 2
      \<and> \<not> valid_date \<lparr>year = digits_value ys, month = digits_value ms, day = 1\<rparr>
    \<longrightarrow> try_match fragment (MTuple [ys, ms]) = Inl ValueError
      \<and> for_matches fragment (MTuple [ys, ms] # matches) dates
          = for_matches fragment matches dates)
   \<and> (\<exists>found. parse_date_patterns texts = Inr found
         \<and> list_all (\<lambda>c. case cand_date c of None \<Rightarrow> True | Some d \<Rightarrow> valid_date d) found)
   \<and> (\<forall>d. parse_date s = Inr d \<longrightarrow> valid_date d)"
proof (intro conjI impI allI)
  assume a: "list_all is_digit [y1, y2, y3, y4] \<and> list_all is_digit [m1, m2]
      \<and> list_all is_digit [d1, d2]
      \<and> \<not> valid_date \<lparr>year = digits_value [y1, y2, y3, y4], month = digits_value [m1, m2],
                       day = digits_value [d1, d2]\<rparr>"
  then have d: "list_all is_digit [y1, y2, y3, y4]" "list_all is_digit [m1, m2]"
    "list_all is_digit [d1, d2]" by blast+
  from a have nv: "\<not> valid_date \<lparr>year = digits_value [y1, y2, y3, y4],
      month = digits_value [m1, m2], day = digits_value [d1, d2]\<rparr>" by blast
  have fp: "for_patterns [y1, y2, y3, y4, ch_minus, m1, m2, ch_minus, d1, d2] patterns ds'
        = Inr (ds' @ year_month_candidates [y1, y2, y3, y4, ch_minus, m1, m2, ch_minus, d1, d2]
                         (digits_value [y1, y2, y3, y4]) (digits_value [m1, m2]))" for ds'
    unfolding for_patterns_iso [OF d] year_month_candidates_def using nv by simp
  show "for_patterns [y1, y2, y3, y4, ch_minus, m1, m2, ch_minus, d1, d2] patterns dates
        = Inr (dates @ year_month_candidates [y1, y2, y3, y4, ch_minus, m1, m2, ch_minus, d1, d2]
                         (digits_value [y1, y2, y3, y4]) (digits_value [m1, m2]))"
    by (rule fp)
  show pp: "parse_date_patterns [[y1, y2, y3, y4, ch_minus, m1, m2, ch_minus, d1, d2]]
        = Inr (year_month_candidates [y1, y2, y3, y4, ch_minus, m1, m2, ch_minus, d1, d2]
                 (digits_value [y1, y2, y3, y4]) (digits_value [m1, m2]))"
    by (simp add: parse_date_patterns_def fp)
  show "recognize_date [[y1, y2, y3, y4, ch_minus, m1, m2, ch_minus, d1, d2]]
        = (case year_month_candidates [y1, y2, y3, y4, ch_minus, m1, m2, ch_minus, d1, d2]
                  (digits_value [y1, y2, y3, y4]) (digits_value [m1, m2]) of
             [] \<Rightarrow> None | c # _ \<Rightarrow> Some c)"
    unfolding recognize_date_def pp
    by (simp add: year_month_candidates_def py_max_def)
  from nv show "parse_date [y1, y2, y3, y4, ch_minus, m1, m2, ch_minus, d1, d2] = Inl ValueError"
    unfolding parse_date_iso_digits [OF d] by simp
next
  assume a: "list_all is_digit ys \<and> length ys = 4
      \<and> list_all is_digit ms \<and> 1 \<le> length ms \<and> length ms \<le> 2
      \<and> list_all is_digit ds \<and> 1 \<le> length ds \<and> length ds \<le> 2
      \<and> \<not> valid_date \<lparr>year = digits_value ys, month = digits_value ms, day = digits_value ds\<rparr>"
  then have ne: "ys \<noteq> []" "ms \<noteq> []" "ds \<noteq> []" by auto
  from a have le: "length ys \<le> 9" "length ms \<le> 9" "length ds \<le> 9" by simp_all
  from a ne le show t: "try_match fragment (MTuple [ys, ms, ds]) = Inl ValueError"
    by (intro try_match_invalid_3) simp_all
  then show "for_matches fragment (MTuple [ys, ms, ds] # matches) dates
      = for_matches fragment matches dates" by simp
next
  assume a: "list_all is_digit ys \<and> length ys = 4
      \<and> list_all is_digit ms \<and> 1 \<le> length ms \<and> length ms \<le> 2
      \<and> \<not> valid_date \<lparr>year = digits_value ys, month = digits_value ms, day = 1\<rparr>"
  then have ne: "ys \<noteq> []" "ms \<noteq> []" by auto
  from a have le: "length ys \<le> 9" "length ms \<le> 9" by simp_all
  from a ne le show t: "try_match fragment (MTuple [ys, ms]) = Inl ValueError"
    by (intro try_match_invalid_2) simp_all
  then show "for_matches fragment (MTuple [ys, ms] # matches) dates
      = for_matches fragment matches dates" by simp
next
  from parse_date_patterns_sound [of texts] obtain found where
    f: "parse_date_patterns texts = Inr found"
    "list_all (\<lambda>c. \<exists>t \<in> set texts. sound_candidate t c) found" by blast
  from f(2) have "list_all (\<lambda>c. case cand_date c of None \<Rightarrow> True | Some d \<Rightarrow> valid_date d) found"
    by (auto simp: list_all_iff sound_candidate_def)
  with f(1) show "\<exists>found. parse_date_patterns texts = Inr found
         \<and> list_all (\<lambda>c. case cand_date c of None \<Rightarrow> True | Some d \<Rightarrow> valid_date d) found"
    by blast
next
  fix d assume "parse_date s = Inr d"
  then show "valid_date d" by (rule parse_date_valid)
qed

text \<open>
  C6, amended, at 2023-02-29 (the day is invalid: the candidate 2023-02-01 is left) and at
  2024-13-05 (the month is invalid: no candidate is left).
\<close>
theorem invalid_date_match_dropped_witness:
  "list_all is_digit (ascii ''2023'') \<and> list_all is_digit (ascii ''02'')
   \<and> list_all is_digit (ascii ''29'')
   \<and> \<not> valid_date \<lparr>year = 2023, month = 2, day = 29\<rparr>
   \<and> parse_date_patterns [ascii ''2023-02-29'']
       = Inr [\<lparr>cand_date = Some \<lparr>year = 2023, month = 2, day = 1\<rparr>,
               cand_shelf_life_months = None, cand_type = production_date,
               cand_text = ascii ''2023-02-29'', cand_confidence = 0.6\<rparr>]
   \<and> recognize_date [ascii ''2023-02-29'']
       = Some \<lparr>cand_date = Some \<lparr>year = 2023, month = 2, day = 1\<rparr>,
               cand_shelf_life_months = None, cand_type = production_date,
               cand_text = ascii ''2023-02-29'', cand_confidence = 0.6\<rparr>
   \<and> parse_date (ascii ''2023-02-29'') = Inl ValueError
   \<and> \<not> valid_date \<lparr>year = 2024, month = 13, day = 5\<rparr>
   \<and> parse_date_patterns [ascii ''2024-13-05''] = Inr []
   \<and> recognize_date [ascii ''2024-13-05''] = None
   \<and> parse_date (ascii ''2024-13-05'') = Inl ValueError"
proof -
  have v: "\<not> valid_date \<lparr>year = 2023, month = 2, day = 29\<rparr>"
    "\<not> valid_date \<lparr>year = 2024, month = 13, day = 5\<rparr>"
    "valid_date \<lparr>year = 2023, month = 2, day = 1\<rparr>"
    "\<not> valid_date \<lparr>year = 2024, month = 13, day = 1\<rparr>"
    by (simp_all add: valid_date_def days_in_month_def is_leap_def DAYS_IN_MONTH_def
          MINYEAR_def MAXYEAR_def)
  have dv: "digits_value [50, 48, 50, 51] = 2023" "digits_value [48, 50] = 2"
    "digits_value [50, 57] = 29" "digits_value [50, 48, 50, 52] = 2024"
    "digits_value [49, 51] = 13" "digits_value [48, 53] = 5"
    by (simp_all add: digits_value_def)
  have dg: "list_all is_digit [50, 48, 50, 51]" "list_all is_digit [48, 50]"
    "list_all is_digit [50, 57]" "list_all is_digit [50, 48, 50, 52]"
    "list_all is_digit [49, 51]" "list_all is_digit [48, 53]"
    by (simp_all add: is_digit_def)
  have tx: "ascii ''2023-02-29'' = [50, 48, 50, 51, ch_minus, 48, 50, ch_minus, 50, 57]"
    "ascii ''2024-13-05'' = [50, 48, 50, 52, ch_minus, 49, 51, ch_minus, 48, 53]"
    "ascii ''2023'' = [50, 48, 50, 51]" "ascii ''02'' = [48, 50]" "ascii ''29'' = [50, 57]"
    by (simp_all add: ascii_def ch_minus_def)
  note T = invalid_date_match_dropped
    [where ?y1.0 = 50 and ?y2.0 = 48 and ?y3.0 = 50 and ?y4.0 = 51
       and ?m1.0 = 48 and ?m2.0 = 50 and ?d1.0 = 50 and ?d2.0 = 57 and dates = "[]",
     THEN conjunct1, THEN mp]
  have p1: "list_all is_digit [50, 48, 50, 51] \<and> list_all is_digit [48, 50]
      \<and> list_all is_digit [50, 57]
      \<and> \<not> valid_date \<lparr>year = digits_value [50, 48, 50, 51], month = digits_value [48, 50],
                       day = digits_value [50, 57]\<rparr>"
    using dg v by (simp only: dv simp_thms)
  note a = T [OF p1]
  note U = invalid_date_match_dropped
    [where ?y1.0 = 50 and ?y2.0 = 48 and ?y3.0 = 50 and ?y4.0 = 52
       and ?m1.0 = 49 and ?m2.0 = 51 and ?d1.0 = 48 and ?d2.0 = 53 and dates = "[]",
     THEN conjunct1, THEN mp]
  have p2: "list_all is_digit [50, 48, 50, 52] \<and> list_all is_digit [49, 51]
      \<and> list_all is_digit [48, 53]
      \<and> \<not> valid_date \<lparr>year = digits_value [50, 48, 50, 52], month = digits_value [49, 51],
                       day = digits_value [48, 53]\<rparr>"
    using dg v by (simp only: dv simp_thms)
  note b = U [OF p2]
  have ym1: "year_month_candidates (ascii ''2023-02-29'') 2023 2
      = [\<lparr>cand_date = Some \<lparr>year = 2023, month = 2, day = 1\<rparr>,
               cand_shelf_life_months = None, cand_type = production_date,
               cand_text = ascii ''2023-02-29'', cand_confidence = 0.6\<rparr>]"
    using v by (simp add: year_month_candidates_def)
  have ym2: "year_month_candidates (ascii ''2024-13-05'') 2024 13 = []"
    using v by (simp add: year_month_candidates_def)
  from a have a': "parse_date_patterns [ascii ''2023-02-29'']
        = Inr (year_month_candidates (ascii ''2023-02-29'') 2023 2)"
      "recognize_date [ascii ''2023-02-29'']
        = (case year_month_candidates (ascii ''2023-02-29'') 2023 2 of
             [] \<Rightarrow> None | c # _ \<Rightarrow> Some c)"
      "parse_date (ascii ''2023-02-29'') = Inl ValueError"
    unfolding dv tx(1) [symmetric] by blast+
  from b have b': "parse_date_patterns [ascii ''2024-13-05'']
        = Inr (year_month_candidates (ascii ''2024-13-05'') 2024 13)"
      "recognize_date [ascii ''2024-13-05'']
        = (case year_month_candidates (ascii ''2024-13-05'') 2024 13 of
             [] \<Rightarrow> None | c # _ \<Rightarrow> Some c)"
      "parse_date (ascii ''2024-13-05'') = Inl ValueError"
    unfolding dv tx(2) [symmetric] by blast+
  have dg': "list_all is_digit (ascii ''2023'')" "list_all is_digit (ascii ''02'')"
    "list_all is_digit (ascii ''29'')"
    using dg by (simp_all only: tx)
  from a' b' show ?thesis
    unfolding ym1 ym2 using v dg' by simp
qed

text \<open>
  C7, as stated, fails for years below 1000: 0005-01-01 is a calendar date, its text
  \<^verbatim>\<open>f"{year}-{month:02d}-{day:02d}"\<close> is \<^verbatim>\<open>5-01-01\<close>, no format matches (\<^verbatim>\<open>%Y\<close> wants four
  digits) and the digit-group fallback reads it day first, as 0001-01-05; \<^verbatim>\<open>999-01-01\<close>
  is not parsed at all.
\<close>
theorem short_year_not_round_tripped:
  "valid_date (mk_date 5 1 1) \<and> iso_text 5 1 1 = ascii ''5-01-01''
   \<and> parse_date (iso_text 5 1 1) = Inr (mk_date 1 1 5)
   \<and> valid_date (mk_date 999 1 1) \<and> iso_text 999 1 1 = ascii ''999-01-01''
   \<and> parse_date (iso_text 999 1 1) = Inl ValueError"
proof -
  have t: "iso_text 5 1 1 = ascii ''5-01-01''" "iso_text 999 1 1 = ascii ''999-01-01''"
    by (simp_all add: iso_text_def format_int_def nat_digits_1 nat_digits_3 ascii_def
          ch_minus_def Let_def)
  have v: "valid_date (mk_date 5 1 1)" "valid_date (mk_date 999 1 1)"
    by (simp_all add: parse_eval)
  have p: "parse_date (ascii ''5-01-01'') = Inr (mk_date 1 1 5)"
    by (simp add: parse_eval chars_eval)
  have q: "parse_date (ascii ''999-01-01'') = Inl ValueError"
    by (simp add: parse_eval chars_eval)
  from t v p q show ?thesis by simp
qed

text \<open>
  C7, amended. For every calendar date with a year from 1000 to 9999, parsing the text
  \<^verbatim>\<open>f"{year}-{month:02d}-{day:02d}"\<close> succeeds and gives back the same year, month and day.
\<close>
theorem parse_date_iso_round_trip:
  assumes "valid_date \<lparr>year = y, month = m, day = d\<rparr>" and "1000 \<le> y"
  shows "parse_date (iso_text y m d) = Inr \<lparr>year = y, month = m, day = d\<rparr>"
proof -
  from assms(1) have b: "y \<le> 9999" "1 \<le> m" "m \<le> 12" "1 \<le> d" "d \<le> days_in_month y m"
    by (simp_all add: valid_date_def MAXYEAR_def)
  from days_in_month_le_31 [OF b(2,3), of y] b(5) have "d < 100" by simp
  with b assms(2) have "parse_date (iso_text y m d)
     = (if valid_date \<lparr>year = y, month = m, day = d\<rparr>
        then Inr \<lparr>year = y, month = m, day = d\<rparr> else Inl ValueError)"
    by (intro parse_date_iso_text) simp_all
  with assms(1) show ?thesis by simp
qed

text \<open>C7, amended, at 2024-02-29.\<close>
theorem parse_date_iso_round_trip_witness:
  "valid_date \<lparr>year = 2024, month = 2, day = 29\<rparr> \<and> (1000::int) \<le> 2024
   \<and> iso_text 2024 2 29 = ascii ''2024-02-29''
   \<and> parse_date (ascii ''2024-02-29'') = Inr \<lparr>year = 2024, month = 2, day = 29\<rparr>"
proof -
  have v: "valid_date \<lparr>year = 2024, month = 2, day = 29\<rparr>"
    by (simp add: valid_date_def days_in_month_def is_leap_def MINYEAR_def MAXYEAR_def)
  have t: "iso_text 2024 2 29 = ascii ''2024-02-29''"
    by (simp add: iso_text_def format_int_def nat_digits_1 nat_digits_2 nat_digits_4 ascii_def
          ch_minus_def Let_def)
  from parse_date_iso_round_trip [OF v] t v show ?thesis by simp
qed


end
